theory Spec2Isabelle
  imports Main
begin

section \<open>Executive-order worker: summary queue and cache refresh\<close>

text \<open>
  A shallow embedding of the queue and cache code of \<^verbatim>\<open>src/src/types.ts\<close>:
  \<^verbatim>\<open>fetchExecutiveOrders\<close>, \<^verbatim>\<open>summarizeEO\<close>, \<^verbatim>\<open>summarizeEOCF\<close>,
  \<^verbatim>\<open>summarizeEOClaude\<close>, \<^verbatim>\<open>processQueue\<close> and \<^verbatim>\<open>updateCache\<close>.

  Every \<^verbatim>\<open>async\<close> function is modelled as a function on an explicit world: the
  key-value namespace, the log of its \<^verbatim>\<open>put\<close> calls, and a counter of the calls made
  to the outside (clock, HTTP, inference binding). What the outside answers is given by
  an environment of oracles indexed by that counter, so two calls with the same
  arguments may be answered differently. A rejected promise is the \<open>Inl\<close> of a sum.
  The functions \<open>updateCache\<close> and \<open>processQueue\<close> below are one invocation that no other
  invocation interrupts; the scheduled trigger, which starts both together, is modelled
  after them by tasks and schedules. The key-value namespace itself never fails. The
  counter \<^verbatim>\<open>attempts\<close> is a natural number and a timestamp an integer: the doubles of
  the source hold both exactly.
\<close>

subsection \<open>Constants (lines 34-39)\<close>

definition MAX_CONCURRENT_REQUESTS :: nat where
  "MAX_CONCURRENT_REQUESTS = 5"

definition RETRY_DELAY_MS :: int where
  "RETRY_DELAY_MS = 60000"

definition MAX_RETRIES :: nat where
  "MAX_RETRIES = 3"

definition AI_USE_CF :: bool where
  "AI_USE_CF = True"

subsection \<open>Data (lines 41-81)\<close>

record President =
  identifier_ :: string
  name :: string

text \<open>
  \<^verbatim>\<open>ExecutiveOrder\<close>: the listing delivers \<^verbatim>\<open>president\<close> as an object, and
  \<^verbatim>\<open>fetchExecutiveOrders\<close> keeps its \<^verbatim>\<open>name\<close> only, so the field's type is a
  parameter. The optional \<^verbatim>\<open>ai_summary\<close> is never set on the paths modelled here.
\<close>

record 'p ExecutiveOrder =
  raw_text_url :: string
  pdf_url :: string
  document_number :: string
  publication_date :: string
  signing_date :: string
  title :: string
  executive_order_number :: string
  president :: 'p
  doc_type :: string

record CachedData =
  lastUpdated :: int
  orders :: "string ExecutiveOrder list"

datatype Status = pending | processing | completed | failed

text \<open>\<^verbatim>\<open>lastAttempt?: number\<close> is \<open>None\<close> when the property is absent.\<close>

record QueueItem =
  documentNumber :: string
  rawTextUrl :: string
  status :: Status
  attempts :: nat
  lastAttempt :: "int option"

subsection \<open>The key-value namespace and the outside\<close>

text \<open>
  The namespace stores strings; the code writes \<^verbatim>\<open>JSON.stringify\<close> of a queue or of a
  snapshot, or a summary's text, and reads the queue back with \<^verbatim>\<open>get(key, 'json')\<close>.
  A stored value is modelled by what it parses to.
\<close>

datatype KVValue =
  QueueJson "QueueItem list"
| OrdersJson CachedData
| Text string

record World =
  kv :: "string \<rightharpoonup> KVValue"
  puts :: "(string \<times> KVValue) list"
  tick :: nat

datatype HttpResult =
  NetworkError
| HttpResponse bool string string

datatype AiResult =
  AiThrows
| AiResponse "string option"

datatype ClaudeBody =
  NoJson
| NoContent
| Content "string option"

datatype ClaudeResult =
  ClaudeNetworkError
| ClaudeResponse bool ClaudeBody

datatype ListingResult =
  ListingNetworkError
| ListingResponse bool string "President ExecutiveOrder list option"

text \<open>
  \<open>now\<close>: what \<^verbatim>\<open>Date.now()\<close> returns. \<open>http_raw\<close>: \<^verbatim>\<open>fetch(url)\<close> followed by
  \<^verbatim>\<open>text()\<close>: rejected, or a response with its \<^verbatim>\<open>ok\<close> flag, status text and body.
  \<open>ai_run\<close>: \<^verbatim>\<open>env.AI.run\<close> on the prompt built around the text: rejected (or
  answered by no object), or an object with its \<^verbatim>\<open>response\<close> property, if any.
  \<open>claude_api\<close>: the POST to \<^verbatim>\<open>CLAUDE_API_URL\<close>: rejected, or a response with its
  \<^verbatim>\<open>ok\<close> flag and its body: one that \<^verbatim>\<open>json()\<close> rejects, one without a
  \<^verbatim>\<open>content[0]\<close> (reading its \<^verbatim>\<open>text\<close> throws), or one with a \<^verbatim>\<open>content[0]\<close> and
  the \<^verbatim>\<open>text\<close> property of it, if any.
  \<open>listing\<close>: the GET of the order listing: rejected, or a response with \<^verbatim>\<open>ok\<close>,
  \<^verbatim>\<open>statusText\<close> and the parsed \<^verbatim>\<open>results\<close> (\<open>None\<close> when \<^verbatim>\<open>json()\<close> or the
  mapping throws). \<open>put_undefined\<close>: what the namespace stores when \<^verbatim>\<open>put\<close> is given
  the value \<^verbatim>\<open>undefined\<close>, \<open>None\<close> when it rejects the call; the source does not say.
\<close>

record Env =
  now :: "nat \<Rightarrow> int"
  http_raw :: "nat \<Rightarrow> string \<Rightarrow> HttpResult"
  ai_run :: "nat \<Rightarrow> string \<Rightarrow> AiResult"
  claude_api :: "nat \<Rightarrow> string \<Rightarrow> ClaudeResult"
  listing :: "nat \<Rightarrow> ListingResult"
  put_undefined :: "KVValue option"

datatype error =
  FetchRejected
| FailedToFetchOrders string
| JsonRejected
| AiRejected
| FailedToGenerateSummary
| PutRejected

definition bump :: "World \<Rightarrow> World" where
  "bump w = w\<lparr>tick := Suc (tick w)\<rparr>"

definition Date_now :: "Env \<Rightarrow> World \<Rightarrow> int \<times> World" where
  "Date_now env w = (now env (tick w), bump w)"

definition kv_put :: "string \<Rightarrow> KVValue \<Rightarrow> World \<Rightarrow> World" where
  "kv_put k v w = w\<lparr>kv := (kv w)(k \<mapsto> v), puts := puts w @ [(k, v)]\<rparr>"

text \<open>
  \<^verbatim>\<open>((await env.EXECUTIVE_ORDERS_CACHE.get('summary_queue', 'json')) as QueueItem[]) || []\<close>.
  Only queues are ever put under that key.
\<close>

definition get_queue :: "World \<Rightarrow> QueueItem list" where
  "get_queue w = (case kv w ''summary_queue'' of Some (QueueJson q) \<Rightarrow> q | _ \<Rightarrow> [])"

definition summaryKey :: "string \<Rightarrow> string" where
  "summaryKey doc = ''summary:'' @ doc"

subsection \<open>fetchExecutiveOrders (lines 275-329)\<close>

text \<open>
  The function reads the clock for the end of the date range, sends the request, throws
  when the response is not \<^verbatim>\<open>ok\<close>, and maps the results.
\<close>

definition normalize_result :: "President ExecutiveOrder \<Rightarrow> string ExecutiveOrder" where
  "normalize_result result =
     \<lparr>raw_text_url = raw_text_url result,
      pdf_url = pdf_url result,
      document_number = document_number result,
      publication_date = publication_date result,
      signing_date = signing_date result,
      title = title result,
      executive_order_number = executive_order_number result,
      president = name (president result),
      doc_type = doc_type result\<rparr>"

definition fetchExecutiveOrders ::
  "Env \<Rightarrow> World \<Rightarrow> (error + string ExecutiveOrder list) \<times> World" where
  "fetchExecutiveOrders env w =
     (let (today, w1) = Date_now env w;
          response = listing env (tick w1);
          w2 = bump w1
      in case response of
           ListingNetworkError \<Rightarrow> (Inl FetchRejected, w2)
         | ListingResponse ok statusText body \<Rightarrow>
             if \<not> ok then (Inl (FailedToFetchOrders statusText), w2)
             else (case body of
                     None \<Rightarrow> (Inl JsonRejected, w2)
                   | Some results \<Rightarrow> (Inr (map normalize_result results), w2)))"

subsection \<open>The summarizers (lines 331-419)\<close>

text \<open>
  The argument \<open>t\<close> is the counter's value at the call to the backend. Both functions
  are declared to return a string; \<open>summarizeEOClaude\<close> returns \<^verbatim>\<open>undefined\<close> (here
  \<open>None\<close>) when \<^verbatim>\<open>content[0]\<close> has no \<^verbatim>\<open>text\<close>, since lines 412-414 read the property
  and return it without a test. Every failure inside its \<^verbatim>\<open>try\<close> (a rejected request, a
  status that is not \<^verbatim>\<open>ok\<close>, a body that does not parse or has no \<^verbatim>\<open>content[0]\<close>) is
  rethrown as one error.
\<close>

definition summarizeEOCF :: "Env \<Rightarrow> nat \<Rightarrow> string \<Rightarrow> error + string" where
  "summarizeEOCF env t text =
     (case ai_run env t text of
        AiThrows \<Rightarrow> Inl AiRejected
      | AiResponse r \<Rightarrow>
          (case r of
             Some s \<Rightarrow> if s \<noteq> [] then Inr s else Inr ''failed''
           | None \<Rightarrow> Inr ''failed''))"

definition summarizeEOClaude :: "Env \<Rightarrow> nat \<Rightarrow> string \<Rightarrow> error + string option" where
  "summarizeEOClaude env t text =
     (case claude_api env t text of
        ClaudeNetworkError \<Rightarrow> Inl FailedToGenerateSummary
      | ClaudeResponse ok body \<Rightarrow>
          if \<not> ok then Inl FailedToGenerateSummary
          else (case body of
                  NoJson \<Rightarrow> Inl FailedToGenerateSummary
                | NoContent \<Rightarrow> Inl FailedToGenerateSummary
                | Content r \<Rightarrow> Inr r))"

definition summarizeEO :: "Env \<Rightarrow> nat \<Rightarrow> string \<Rightarrow> error + string option" where
  "summarizeEO env t text =
     (if AI_USE_CF
      then (case summarizeEOCF env t text of Inl e \<Rightarrow> Inl e | Inr s \<Rightarrow> Inr (Some s))
      else summarizeEOClaude env t text)"

subsection \<open>processQueue (lines 421-458)\<close>

text \<open>
  The predicate of the \<^verbatim>\<open>filter\<close> (lines 427-429), with JavaScript's evaluation
  order: the clock is read only for a failed item under the retry ceiling whose
  \<^verbatim>\<open>lastAttempt\<close> is truthy, that is, present and not \<open>0\<close>.
\<close>

definition eligible :: "Env \<Rightarrow> QueueItem \<Rightarrow> World \<Rightarrow> bool \<times> World" where
  "eligible env item w =
     (if status item = pending then (True, w)
      else if status item = failed \<and> attempts item < MAX_RETRIES then
        (case lastAttempt item of
           None \<Rightarrow> (True, w)
         | Some la \<Rightarrow>
             if la = 0 then (True, w)
             else (let (n, w1) = Date_now env w in (n - la \<ge> RETRY_DELAY_MS, w1)))
      else (False, w))"

text \<open>
  \<^verbatim>\<open>queueData.filter(...)\<close>. The array holds references to the items, and the loop
  below mutates the items it is given: the filter's result is modelled by the
  positions of the kept items in \<^verbatim>\<open>queueData\<close>, counted from \<open>i\<close>. The items come
  from one \<^verbatim>\<open>JSON.parse\<close>, so no two positions share an object, and a kept position is
  always within the array (\<open>filter_eligible_bounds\<close>).
\<close>

fun filter_eligible :: "Env \<Rightarrow> QueueItem list \<Rightarrow> nat \<Rightarrow> World \<Rightarrow> nat list \<times> World" where
  "filter_eligible env [] i w = ([], w)"
| "filter_eligible env (item # rest) i w =
     (let (b, w1) = eligible env item w;
          (kept, w2) = filter_eligible env rest (Suc i) w1
      in (if b then i # kept else kept, w2))"

text \<open>
  The same predicate as a function of the counter at which the item is tested, and the
  number of clock readings the filter makes on a list of items; \<open>eligible_eq\<close> and
  \<open>eligibleItems_exact\<close> relate them to the two functions above.
\<close>

definition eligible_at :: "Env \<Rightarrow> nat \<Rightarrow> QueueItem \<Rightarrow> bool" where
  "eligible_at env t item \<longleftrightarrow>
     status item = pending \<or>
     (status item = failed \<and> attempts item < MAX_RETRIES \<and>
      (case lastAttempt item of
         None \<Rightarrow> True
       | Some la \<Rightarrow> la = 0 \<or> now env t - la \<ge> RETRY_DELAY_MS))"

definition reads_clock :: "QueueItem \<Rightarrow> bool" where
  "reads_clock item \<longleftrightarrow>
     status item = failed \<and> attempts item < MAX_RETRIES \<and>
     (case lastAttempt item of None \<Rightarrow> False | Some la \<Rightarrow> la \<noteq> 0)"

definition clock_reads :: "QueueItem list \<Rightarrow> nat" where
  "clock_reads q = length (filter reads_clock q)"

text \<open>
  The \<^verbatim>\<open>try\<close> block of lines 442-449; \<open>Inl\<close> is the jump to \<^verbatim>\<open>catch\<close>. \<open>put_summary\<close>
  is the \<^verbatim>\<open>put\<close> of line 446, given what \<open>summarizeEO\<close> returned.
\<close>

definition put_summary :: "Env \<Rightarrow> string \<Rightarrow> string option \<Rightarrow> World \<Rightarrow> (error + unit) \<times> World" where
  "put_summary env doc summary w =
     (case summary of
        Some s \<Rightarrow> (Inr (), kv_put (summaryKey doc) (Text s) w)
      | None \<Rightarrow>
          (case put_undefined env of
             None \<Rightarrow> (Inl PutRejected, w)
           | Some v \<Rightarrow> (Inr (), kv_put (summaryKey doc) v w)))"

definition try_summarize :: "Env \<Rightarrow> QueueItem \<Rightarrow> World \<Rightarrow> (error + unit) \<times> World" where
  "try_summarize env item w =
     (let resp = http_raw env (tick w) (rawTextUrl item);
          w1 = bump w
      in case resp of
           NetworkError \<Rightarrow> (Inl FetchRejected, w1)
         | HttpResponse ok statusText text \<Rightarrow>
             (let r = summarizeEO env (tick w1) text;
                  w2 = bump w1
              in case r of
                   Inl e \<Rightarrow> (Inl e, w2)
                 | Inr summary \<Rightarrow> put_summary env (documentNumber item) summary w2))"

text \<open>One turn of the \<^verbatim>\<open>for\<close> loop (lines 436-456) on the item at position \<open>i\<close>.\<close>

definition process_item ::
  "Env \<Rightarrow> nat \<Rightarrow> QueueItem list \<times> World \<Rightarrow> QueueItem list \<times> World" where
  "process_item env i s =
     (let (queueData, w) = s;
          (n, w1) = Date_now env w;
          q1 = queueData[i := (queueData ! i)
                 \<lparr>status := processing,
                  attempts := attempts (queueData ! i) + 1,
                  lastAttempt := Some n\<rparr>];
          w2 = kv_put ''summary_queue'' (QueueJson q1) w1;
          (r, w3) = try_summarize env (q1 ! i) w2;
          q2 = (case r of
                  Inr _ \<Rightarrow> q1[i := (q1 ! i)\<lparr>status := completed\<rparr>]
                | Inl _ \<Rightarrow> q1[i := (q1 ! i)\<lparr>status := failed\<rparr>]);
          w4 = kv_put ''summary_queue'' (QueueJson q2) w3
      in (q2, w4))"

fun process_items ::
  "Env \<Rightarrow> nat list \<Rightarrow> QueueItem list \<times> World \<Rightarrow> QueueItem list \<times> World" where
  "process_items env [] s = s"
| "process_items env (i # rest) s = process_items env rest (process_item env i s)"

text \<open>
  The constants \<^verbatim>\<open>eligibleItems\<close> (line 426) and \<^verbatim>\<open>itemsToProcess\<close> (line 433) of an
  invocation entered in the world \<open>w\<close>; \<open>processQueue_unfold\<close> relates them to the
  function below.
\<close>

definition eligibleItems :: "Env \<Rightarrow> World \<Rightarrow> nat list" where
  "eligibleItems env w = fst (filter_eligible env (get_queue w) 0 w)"

definition itemsToProcess :: "Env \<Rightarrow> World \<Rightarrow> nat list" where
  "itemsToProcess env w = take MAX_CONCURRENT_REQUESTS (eligibleItems env w)"

definition processQueue :: "Env \<Rightarrow> World \<Rightarrow> World" where
  "processQueue env w =
     (let queueData = get_queue w
      in if length queueData = 0 then w
         else (let (eligibleItems, w1) = filter_eligible env queueData 0 w;
                   itemsToProcess = take MAX_CONCURRENT_REQUESTS eligibleItems
               in snd (process_items env itemsToProcess (queueData, w1))))"

subsection \<open>updateCache (lines 460-492)\<close>

text \<open>
  Lines 472-486, the branch taken when \<^verbatim>\<open>summary\<close> is true: \<open>newQueueItems\<close> is the
  constant of lines 475-482, \<open>enqueueNew\<close> the whole branch.
\<close>

definition newQueueItems :: "string ExecutiveOrder list \<Rightarrow> World \<Rightarrow> QueueItem list" where
  "newQueueItems orders' w =
     (let existingQueue = get_queue w;
          existingDocs = set (map documentNumber existingQueue)
      in map (\<lambda>order. \<lparr>documentNumber = document_number order,
                        rawTextUrl = raw_text_url order,
                        status = pending,
                        attempts = 0,
                        lastAttempt = None\<rparr>)
             (filter (\<lambda>order. document_number order \<notin> existingDocs) orders'))"

definition enqueueNew :: "string ExecutiveOrder list \<Rightarrow> World \<Rightarrow> World" where
  "enqueueNew orders' w =
     (let existingQueue = get_queue w;
          new = newQueueItems orders' w
      in if length new > 0
         then kv_put ''summary_queue'' (QueueJson (existingQueue @ new)) w
         else w)"

definition updateCache :: "Env \<Rightarrow> bool \<Rightarrow> World \<Rightarrow> (error + unit) \<times> World" where
  "updateCache env summary w =
     (case fetchExecutiveOrders env w of
        (Inl e, w1) \<Rightarrow> (Inl e, w1)
      | (Inr orders', w1) \<Rightarrow>
          (let (n, w2) = Date_now env w1;
               cacheData = \<lparr>lastUpdated = n, orders = orders'\<rparr>;
               w3 = kv_put ''orders'' (OrdersJson cacheData) w2
           in if summary then (Inr (), enqueueNew orders' w3) else (Inr (), w3)))"

subsection \<open>Invocations in turn, and what the outside may answer\<close>

text \<open>
  \<open>in_turn\<close> composes invocations that do not overlap: each runs to its end before the
  next starts, as when a caller awaits one invocation after the other. It is not the
  scheduled trigger, which starts both functions together (see \<open>scheduled\<close> below).
\<close>

datatype Invocation = ProcessQueue | UpdateCache bool

fun invoke :: "Env \<Rightarrow> Invocation \<Rightarrow> World \<Rightarrow> World" where
  "invoke env ProcessQueue w = processQueue env w"
| "invoke env (UpdateCache summary) w = snd (updateCache env summary w)"

fun in_turn :: "Env \<Rightarrow> Invocation list \<Rightarrow> World \<Rightarrow> World" where
  "in_turn env [] w = w"
| "in_turn env (c # cs) w = in_turn env cs (invoke env c w)"

text \<open>The item as lines 437-439 leave it, read at the world the turn starts in.\<close>

definition attempted :: "Env \<Rightarrow> World \<Rightarrow> QueueItem \<Rightarrow> QueueItem" where
  "attempted env w item =
     item\<lparr>status := processing, attempts := Suc (attempts item),
          lastAttempt := Some (now env (tick w))\<rparr>"


definition listing_fails :: "Env \<Rightarrow> nat \<Rightarrow> bool" where
  "listing_fails env t =
     (case listing env t of
        ListingNetworkError \<Rightarrow> True
      | ListingResponse ok statusText body \<Rightarrow> \<not> ok \<or> body = None)"

subsection \<open>The scheduled trigger (lines 494-499)\<close>

text \<open>
  \<^verbatim>\<open>ctx.waitUntil(Promise.all([updateCache(env, true), processQueue(env)]))\<close> starts
  both functions; each runs until it awaits a call to the outside, and goes on when that
  call is answered. Here a function is a task that is suspended at an \<^verbatim>\<open>await\<close>, with
  the values it holds, and a step of a task is: the awaited call takes effect on the
  world, and the code up to the next \<^verbatim>\<open>await\<close> runs. A schedule says which task takes
  the next step; every order of the answers is some schedule. A value is passed to
  \<^verbatim>\<open>put\<close> as \<^verbatim>\<open>JSON.stringify\<close> made it when the call was issued, so a suspended task
  holds the queue it is about to write.

  \<open>uc_step\<close> is \<open>updateCache\<close> cut at its awaits: the listing (with its \<^verbatim>\<open>json()\<close>), the
  \<^verbatim>\<open>put\<close> of the snapshot, the \<^verbatim>\<open>get\<close> of the queue, the \<^verbatim>\<open>put\<close> of the queue.
  \<open>pq_step\<close> is \<open>processQueue\<close> cut at its awaits: the \<^verbatim>\<open>get\<close> of the queue, and in each
  turn of the loop the \<^verbatim>\<open>put\<close> of the queue, the fetch (with its \<^verbatim>\<open>text()\<close>), the
  summarizer, the \<^verbatim>\<open>put\<close> of the summary and the \<^verbatim>\<open>put\<close> of the queue. A task that
  takes all its steps with no step of the other in between does what the function does
  (\<open>updateCache_alone\<close>, \<open>processQueue_alone\<close>).
\<close>

datatype UCState =
  UFetch bool
| UPutOrders bool CachedData
| UGetQueue "string ExecutiveOrder list"
| UPutQueue "QueueItem list"
| UDone "error option"

definition uc_step :: "Env \<Rightarrow> UCState \<Rightarrow> World \<Rightarrow> UCState \<times> World" where
  "uc_step env u w =
     (case u of
        UFetch summary \<Rightarrow>
          (case fetchExecutiveOrders env w of
             (Inl e, w1) \<Rightarrow> (UDone (Some e), w1)
           | (Inr orders', w1) \<Rightarrow>
               (let (n, w2) = Date_now env w1
                in (UPutOrders summary \<lparr>lastUpdated = n, orders = orders'\<rparr>, w2)))
      | UPutOrders summary cacheData \<Rightarrow>
          (let w1 = kv_put ''orders'' (OrdersJson cacheData) w
           in if summary then (UGetQueue (orders cacheData), w1) else (UDone None, w1))
      | UGetQueue orders' \<Rightarrow>
          (let existingQueue = get_queue w;
               new = newQueueItems orders' w
           in if length new > 0 then (UPutQueue (existingQueue @ new), w) else (UDone None, w))
      | UPutQueue q \<Rightarrow> (UDone None, kv_put ''summary_queue'' (QueueJson q) w)
      | UDone r \<Rightarrow> (UDone r, w))"

datatype PQState =
  PGet
| PPutProcessing "QueueItem list" nat "nat list"
| PFetch "QueueItem list" nat "nat list"
| PSummarize "QueueItem list" nat "nat list" string
| PPutSummary "QueueItem list" nat "nat list" "string option"
| PPutQueue "QueueItem list" "nat list"
| PDone

definition begin_turn :: "Env \<Rightarrow> QueueItem list \<Rightarrow> nat list \<Rightarrow> World \<Rightarrow> PQState \<times> World" where
  "begin_turn env queueData is w =
     (case is of
        [] \<Rightarrow> (PDone, w)
      | i # rest \<Rightarrow>
          (let (n, w1) = Date_now env w;
               q1 = queueData[i := (queueData ! i)
                      \<lparr>status := processing,
                       attempts := attempts (queueData ! i) + 1,
                       lastAttempt := Some n\<rparr>]
           in (PPutProcessing q1 i rest, w1)))"

definition pq_step :: "Env \<Rightarrow> PQState \<Rightarrow> World \<Rightarrow> PQState \<times> World" where
  "pq_step env p w =
     (case p of
        PGet \<Rightarrow>
          (let queueData = get_queue w
           in if length queueData = 0 then (PDone, w)
              else (let (eligibleItems, w1) = filter_eligible env queueData 0 w;
                        itemsToProcess = take MAX_CONCURRENT_REQUESTS eligibleItems
                    in begin_turn env queueData itemsToProcess w1))
      | PPutProcessing q i rest \<Rightarrow> (PFetch q i rest, kv_put ''summary_queue'' (QueueJson q) w)
      | PFetch q i rest \<Rightarrow>
          (case http_raw env (tick w) (rawTextUrl (q ! i)) of
             NetworkError \<Rightarrow> (PPutQueue (q[i := (q ! i)\<lparr>status := failed\<rparr>]) rest, bump w)
           | HttpResponse ok statusText text \<Rightarrow> (PSummarize q i rest text, bump w))
      | PSummarize q i rest text \<Rightarrow>
          (case summarizeEO env (tick w) text of
             Inl e \<Rightarrow> (PPutQueue (q[i := (q ! i)\<lparr>status := failed\<rparr>]) rest, bump w)
           | Inr summary \<Rightarrow> (PPutSummary q i rest summary, bump w))
      | PPutSummary q i rest summary \<Rightarrow>
          (case put_summary env (documentNumber (q ! i)) summary w of
             (Inl e, w1) \<Rightarrow> (PPutQueue (q[i := (q ! i)\<lparr>status := failed\<rparr>]) rest, w1)
           | (Inr u, w1) \<Rightarrow> (PPutQueue (q[i := (q ! i)\<lparr>status := completed\<rparr>]) rest, w1))
      | PPutQueue q rest \<Rightarrow> begin_turn env q rest (kv_put ''summary_queue'' (QueueJson q) w)
      | PDone \<Rightarrow> (PDone, w))"

datatype Task = TUpdateCache | TProcessQueue

fun interleave ::
  "Env \<Rightarrow> Task list \<Rightarrow> UCState \<times> PQState \<times> World \<Rightarrow> UCState \<times> PQState \<times> World" where
  "interleave env [] c = c"
| "interleave env (TUpdateCache # sched) (u, p, w) =
     (let (u', w') = uc_step env u w in interleave env sched (u', p, w'))"
| "interleave env (TProcessQueue # sched) (u, p, w) =
     (let (p', w') = pq_step env p w in interleave env sched (u, p', w'))"

definition scheduled :: "Env \<Rightarrow> Task list \<Rightarrow> World \<Rightarrow> UCState \<times> PQState \<times> World" where
  "scheduled env sched w = interleave env sched (UFetch True, PGet, w)"

definition world_after :: "UCState \<times> PQState \<times> World \<Rightarrow> World" where
  "world_after c = snd (snd c)"

text \<open>
  What the suspended tasks hold has pairwise distinct document numbers; every listing the
  upstream API delivers has.
\<close>

fun uc_inv :: "UCState \<Rightarrow> bool" where
  "uc_inv (UPutOrders summary cacheData) = distinct (map document_number (orders cacheData))"
| "uc_inv (UGetQueue orders') = distinct (map document_number orders')"
| "uc_inv (UPutQueue q) = distinct (map documentNumber q)"
| "uc_inv u = True"

fun pq_inv :: "PQState \<Rightarrow> bool" where
  "pq_inv (PPutProcessing q i rest) = distinct (map documentNumber q)"
| "pq_inv (PFetch q i rest) = distinct (map documentNumber q)"
| "pq_inv (PSummarize q i rest body) = distinct (map documentNumber q)"
| "pq_inv (PPutSummary q i rest summary) = distinct (map documentNumber q)"
| "pq_inv (PPutQueue q rest) = distinct (map documentNumber q)"
| "pq_inv p = True"

definition listings_distinct :: "Env \<Rightarrow> bool" where
  "listings_distinct env \<longleftrightarrow>
     (\<forall>t st results. listing env t = ListingResponse True st (Some results) \<longrightarrow>
        distinct (map document_number results))"

subsection \<open>Example worlds and environments\<close>

definition pending_item :: "string \<Rightarrow> QueueItem" where
  "pending_item doc =
     \<lparr>documentNumber = doc, rawTextUrl = ''https://www.federalregister.gov/raw/'' @ doc,
      status = pending, attempts = 0, lastAttempt = None\<rparr>"

definition failed_item :: "string \<Rightarrow> nat \<Rightarrow> int \<Rightarrow> QueueItem" where
  "failed_item doc n t =
     (pending_item doc)\<lparr>status := failed, attempts := n, lastAttempt := Some t\<rparr>"

definition seven_pending :: "QueueItem list" where
  "seven_pending = map pending_item [''A'', ''B'', ''C'', ''D'', ''E'', ''F'', ''G'']"

definition done_then_pending :: "QueueItem list" where
  "done_then_pending = [(pending_item ''B'')\<lparr>status := completed, attempts := 1\<rparr>, pending_item ''A'']"

definition order_A :: "President ExecutiveOrder" where
  "order_A =
     \<lparr>raw_text_url = ''https://www.federalregister.gov/raw/A'',
      pdf_url = ''https://www.federalregister.gov/pdf/A'',
      document_number = ''A'',
      publication_date = ''2025-01-31'',
      signing_date = ''2025-01-28'',
      title = ''An Order'',
      executive_order_number = ''14000'',
      president = \<lparr>identifier_ = ''p'', name = ''P''\<rparr>,
      doc_type = ''Presidential Document''\<rparr>"

definition empty_world :: World where
  "empty_world = \<lparr>kv = Map.empty, puts = [], tick = 0\<rparr>"

definition world_of :: "QueueItem list \<Rightarrow> World" where
  "world_of q = \<lparr>kv = [''summary_queue'' \<mapsto> QueueJson q], puts = [], tick = 0\<rparr>"

text \<open>
  \<open>env_ok\<close>: every raw text arrives and the inference binding answers with a summary; the
  listing is out of reach. The others differ from it in one answer.
\<close>

definition env_ok :: Env where
  "env_ok =
     \<lparr>now = (\<lambda>t. 1700000000000 + int t),
      http_raw = (\<lambda>t url. HttpResponse True ''OK'' ''Executive Order text''),
      ai_run = (\<lambda>t text. AiResponse (Some ''## Summary'')),
      claude_api = (\<lambda>t text. ClaudeResponse True (Content (Some ''## Summary''))),
      listing = (\<lambda>t. ListingNetworkError),
      put_undefined = None\<rparr>"

definition env_gen_throws :: Env where
  "env_gen_throws = env_ok\<lparr>ai_run := (\<lambda>t text. AiThrows)\<rparr>"

definition env_ai_empty :: Env where
  "env_ai_empty = env_ok\<lparr>ai_run := (\<lambda>t text. AiResponse None)\<rparr>"

definition env_404 :: Env where
  "env_404 =
     env_ok\<lparr>http_raw := (\<lambda>t url. HttpResponse False ''Not Found'' ''<html>404 Not Found</html>''),
            ai_run := (\<lambda>t text. AiResponse (Some ''## Summary of an error page''))\<rparr>"

definition env_listing :: "President ExecutiveOrder list \<Rightarrow> Env" where
  "env_listing results = env_ok\<lparr>listing := (\<lambda>t. ListingResponse True ''OK'' (Some results))\<rparr>"

definition env_listing_503 :: Env where
  "env_listing_503 = env_ok\<lparr>listing := (\<lambda>t. ListingResponse False ''Service Unavailable'' None)\<rparr>"

text \<open>
  A race of the scheduled trigger: the refresh reads the queue, \<open>processQueue\<close> takes the
  item \<open>Z\<close> to its third failed attempt, and the refresh then puts the queue it read.
  \<open>env_epoch\<close>: a clock in the first second of 1970.
\<close>

definition env_race :: Env where
  "env_race =
     env_ok\<lparr>http_raw := (\<lambda>t url. NetworkError),
            listing := (\<lambda>t. ListingResponse True ''OK'' (Some [order_A]))\<rparr>"

definition race_start :: World where
  "race_start = world_of [failed_item ''Z'' 2 1699999000000]"

definition race_schedule :: "Task list" where
  "race_schedule =
     [TUpdateCache, TUpdateCache, TUpdateCache,
      TProcessQueue, TProcessQueue, TProcessQueue, TProcessQueue]"


section \<open>Properties\<close>

subsection \<open>The world operations\<close>

lemma bump_simps:
  "kv (bump w) = kv w" "puts (bump w) = puts w" "tick (bump w) = Suc (tick w)"
  by (simp_all add: bump_def)

lemma kv_put_simps:
  "kv (kv_put k v w) = (kv w)(k \<mapsto> v)"
  "puts (kv_put k v w) = puts w @ [(k, v)]"
  "tick (kv_put k v w) = tick w"
  by (simp_all add: kv_put_def)

lemma summaryKey_not_queue: "summaryKey doc \<noteq> ''summary_queue''"
  by (simp add: summaryKey_def)

lemma summaryKey_not_orders: "summaryKey doc \<noteq> ''orders''"
  by (simp add: summaryKey_def)

lemma summaryKey_inj: "summaryKey a = summaryKey b \<longleftrightarrow> a = b"
  by (simp add: summaryKey_def)

lemma get_queue_cong: "kv w' ''summary_queue'' = kv w ''summary_queue'' \<Longrightarrow> get_queue w' = get_queue w"
  by (simp add: get_queue_def)

lemma get_queue_bump: "get_queue (bump w) = get_queue w"
  by (simp add: get_queue_def bump_simps)

lemma get_queue_put_queue: "get_queue (kv_put ''summary_queue'' (QueueJson q) w) = q"
  by (simp add: get_queue_def kv_put_simps)

lemma get_queue_put_other: "k \<noteq> ''summary_queue'' \<Longrightarrow> get_queue (kv_put k v w) = get_queue w"
  by (simp add: get_queue_def kv_put_simps)

subsection \<open>The filter\<close>

lemma eligible_world:
  "kv (snd (eligible env item w)) = kv w"
  "puts (snd (eligible env item w)) = puts w"
  "tick w \<le> tick (snd (eligible env item w))"
  by (simp_all add: eligible_def Date_now_def bump_simps split: option.split)

lemma filter_eligible_world:
  "kv (snd (filter_eligible env q i w)) = kv w \<and>
   puts (snd (filter_eligible env q i w)) = puts w \<and>
   tick w \<le> tick (snd (filter_eligible env q i w))"
proof (induction q arbitrary: i w)
  case Nil
  show ?case by simp
next
  case (Cons item rest)
  obtain b w1 where e: "eligible env item w = (b, w1)" by (cases "eligible env item w")
  obtain kept w2 where f: "filter_eligible env rest (Suc i) w1 = (kept, w2)"
    by (cases "filter_eligible env rest (Suc i) w1")
  from eligible_world [where env=env and item=item and w=w] e
  have w1: "kv w1 = kv w" "puts w1 = puts w" "tick w \<le> tick w1" by simp_all
  from Cons.IH [of "Suc i" w1] f
  have w2: "kv w2 = kv w1" "puts w2 = puts w1" "tick w1 \<le> tick w2" by simp_all
  show ?case using e f w1 w2 by simp
qed

lemma filter_eligible_bounds:
  "k \<in> set (fst (filter_eligible env q i w)) \<Longrightarrow> i \<le> k \<and> k < i + length q"
proof (induction q arbitrary: i w)
  case Nil
  then show ?case by simp
next
  case (Cons item rest)
  obtain b w1 where e: "eligible env item w = (b, w1)" by (cases "eligible env item w")
  obtain kept w2 where f: "filter_eligible env rest (Suc i) w1 = (kept, w2)"
    by (cases "filter_eligible env rest (Suc i) w1")
  from Cons.prems e f have "k = i \<or> k \<in> set kept" by (simp split: if_splits)
  then show ?case
  proof
    assume "k = i" then show ?thesis by simp
  next
    assume "k \<in> set kept"
    with Cons.IH [of "Suc i" w1] f show ?thesis by simp
  qed
qed

lemma filter_eligible_sorted_distinct:
  "sorted (fst (filter_eligible env q i w)) \<and> distinct (fst (filter_eligible env q i w))"
proof (induction q arbitrary: i w)
  case Nil
  show ?case by simp
next
  case (Cons item rest)
  obtain b w1 where e: "eligible env item w = (b, w1)" by (cases "eligible env item w")
  obtain kept w2 where f: "filter_eligible env rest (Suc i) w1 = (kept, w2)"
    by (cases "filter_eligible env rest (Suc i) w1")
  have bnd: "\<forall>k \<in> set kept. Suc i \<le> k"
    using filter_eligible_bounds [of _ env rest "Suc i" w1] f by auto
  from Cons.IH [of "Suc i" w1] f have sd: "sorted kept" "distinct kept" by simp_all
  show ?case using e f bnd sd by (auto simp: less_eq_Suc_le)
qed


subsection \<open>One item\<close>

lemma process_item_unfold:
  "process_item env i (q, w) =
     (let q1 = q[i := attempted env w (q ! i)];
          w2 = kv_put ''summary_queue'' (QueueJson q1) (bump w);
          r = try_summarize env (q1 ! i) w2;
          q2 = q1[i := (q1 ! i)\<lparr>status := (case fst r of Inr _ \<Rightarrow> completed | Inl _ \<Rightarrow> failed)\<rparr>]
      in (q2, kv_put ''summary_queue'' (QueueJson q2) (snd r)))"
  by (simp add: process_item_def Let_def Date_now_def attempted_def split: prod.splits sum.splits)

lemma process_item_length: "length (fst (process_item env i (q, w))) = length q"
  by (simp add: process_item_unfold Let_def)

lemma process_item_other: "j \<noteq> i \<Longrightarrow> fst (process_item env i (q, w)) ! j = q ! j"
  by (simp add: process_item_unfold Let_def)

lemma process_item_self:
  assumes "i < length q"
  shows "\<exists>st. (st = completed \<or> st = failed) \<and>
           fst (process_item env i (q, w)) ! i =
             (q ! i)\<lparr>status := st, attempts := Suc (attempts (q ! i)),
                     lastAttempt := Some (now env (tick w))\<rparr>"
  using assms
  by (cases "fst (try_summarize env (attempted env w (q ! i))
        (kv_put ''summary_queue'' (QueueJson (q[i := attempted env w (q ! i)])) (bump w)))")
     (auto simp add: process_item_unfold Let_def attempted_def)

lemma process_item_stored:
  "get_queue (snd (process_item env i (q, w))) = fst (process_item env i (q, w))"
  by (simp add: process_item_unfold Let_def get_queue_put_queue)

lemma process_item_keys:
  "map documentNumber (fst (process_item env i (q, w))) = map documentNumber q \<and>
   map rawTextUrl (fst (process_item env i (q, w))) = map rawTextUrl q"
proof (cases "i < length q")
  case True
  from process_item_self [OF True, of env w] obtain st where
    "fst (process_item env i (q, w)) ! i =
       (q ! i)\<lparr>status := st, attempts := Suc (attempts (q ! i)),
               lastAttempt := Some (now env (tick w))\<rparr>" by blast
  then have "\<forall>j < length q. documentNumber (fst (process_item env i (q, w)) ! j) = documentNumber (q ! j)
     \<and> rawTextUrl (fst (process_item env i (q, w)) ! j) = rawTextUrl (q ! j)"
    using process_item_other [of _ i env q w] by (metis QueueItem.select_convs(1,2) QueueItem.surjective QueueItem.update_convs(3,4,5))
  then show ?thesis
    by (simp add: list_eq_iff_nth_eq process_item_length)
next
  case False
  then have le: "length q \<le> i" by simp
  have "fst (process_item env i (q, w)) = q"
    unfolding process_item_unfold Let_def fst_conv
    by (simp only: list_update_beyond [OF le] length_list_update)
  then show ?thesis by simp
qed


subsection \<open>The loop\<close>

lemma process_items_length: "length (fst (process_items env is (q, w))) = length q"
proof (induction "is" arbitrary: q w)
  case Nil
  show ?case by simp
next
  case (Cons i rest)
  obtain q1 w1 where p: "process_item env i (q, w) = (q1, w1)"
    by (cases "process_item env i (q, w)")
  with process_item_length [of env i q w] have "length q1 = length q" by simp
  with Cons.IH [of q1 w1] p show ?case by simp
qed

lemma process_items_other:
  "j \<notin> set is \<Longrightarrow> fst (process_items env is (q, w)) ! j = q ! j"
proof (induction "is" arbitrary: q w)
  case Nil
  show ?case by simp
next
  case (Cons i rest)
  obtain q1 w1 where p: "process_item env i (q, w) = (q1, w1)"
    by (cases "process_item env i (q, w)")
  from Cons.prems have ne: "j \<noteq> i" and nin: "j \<notin> set rest" by simp_all
  from process_item_other [OF ne, of env q w] p have "q1 ! j = q ! j" by simp
  with Cons.IH [OF nin, of q1 w1] p show ?case by simp
qed

lemma process_items_keys:
  "map documentNumber (fst (process_items env is (q, w))) = map documentNumber q \<and>
   map rawTextUrl (fst (process_items env is (q, w))) = map rawTextUrl q"
proof (induction "is" arbitrary: q w)
  case Nil
  show ?case by simp
next
  case (Cons i rest)
  obtain q1 w1 where p: "process_item env i (q, w) = (q1, w1)"
    by (cases "process_item env i (q, w)")
  with process_item_keys [of env i q w]
  have "map documentNumber q1 = map documentNumber q" "map rawTextUrl q1 = map rawTextUrl q"
    by simp_all
  with Cons.IH [of q1 w1] p show ?case by simp
qed

lemma process_items_stored:
  "is \<noteq> [] \<Longrightarrow>
   get_queue (snd (process_items env is (q, w))) = fst (process_items env is (q, w))"
proof (induction "is" arbitrary: q w)
  case Nil
  then show ?case by simp
next
  case (Cons i rest)
  obtain q1 w1 where p: "process_item env i (q, w) = (q1, w1)"
    by (cases "process_item env i (q, w)")
  with process_item_stored [of env i q w] have st: "get_queue w1 = q1" by simp
  show ?case
  proof (cases rest)
    case Nil
    with p st show ?thesis by simp
  next
    case (Cons a list)
    then have "rest \<noteq> []" by simp
    from Cons.IH [OF this, of q1 w1] p show ?thesis by simp
  qed
qed

lemma process_items_done:
  assumes "distinct is" and "\<forall>i \<in> set is. i < length q" and "j \<in> set is"
  shows "(status (fst (process_items env is (q, w)) ! j) = completed \<or>
          status (fst (process_items env is (q, w)) ! j) = failed) \<and>
         attempts (fst (process_items env is (q, w)) ! j) = Suc (attempts (q ! j)) \<and>
         lastAttempt (fst (process_items env is (q, w)) ! j) \<noteq> None"
  using assms
proof (induction "is" arbitrary: q w)
  case Nil
  then show ?case by simp
next
  case (Cons i rest)
  obtain q1 w1 where p: "process_item env i (q, w) = (q1, w1)"
    by (cases "process_item env i (q, w)")
  from process_item_length [of env i q w] p have len: "length q1 = length q" by simp
  show ?case
  proof (cases "j = i")
    case True
    from Cons.prems have "i < length q" and nin: "i \<notin> set rest" by simp_all
    from process_item_self [OF this(1), of env w] p obtain st where
      st: "st = completed \<or> st = failed" and
      q1i: "q1 ! i = (q ! i)\<lparr>status := st, attempts := Suc (attempts (q ! i)),
              lastAttempt := Some (now env (tick w))\<rparr>" by auto
    from process_items_other [OF nin, of env q1 w1]
    have "fst (process_items env rest (q1, w1)) ! i = q1 ! i" .
    with True p st q1i show ?thesis by auto
  next
    case False
    with Cons.prems have jin: "j \<in> set rest" and d: "distinct rest"
      and b: "\<forall>i \<in> set rest. i < length q1" by (simp_all add: len)
    from process_item_other [OF False, of env q w] p have "q1 ! j = q ! j" by simp
    with Cons.IH [OF d b jin, of w1] p show ?thesis by simp
  qed
qed



subsection \<open>One invocation of processQueue\<close>

lemma eligibleItems_props:
  "sorted (eligibleItems env w)" "distinct (eligibleItems env w)"
  "\<forall>i \<in> set (eligibleItems env w). i < length (get_queue w)"
proof -
  show "sorted (eligibleItems env w)" "distinct (eligibleItems env w)"
    using filter_eligible_sorted_distinct [of env "get_queue w" 0 w]
    by (simp_all add: eligibleItems_def)
  show "\<forall>i \<in> set (eligibleItems env w). i < length (get_queue w)"
  proof
    fix i assume "i \<in> set (eligibleItems env w)"
    then have "i \<in> set (fst (filter_eligible env (get_queue w) 0 w))"
      by (simp add: eligibleItems_def)
    from filter_eligible_bounds [OF this] show "i < length (get_queue w)" by simp
  qed
qed

lemma itemsToProcess_props:
  "distinct (itemsToProcess env w)"
  "\<forall>i \<in> set (itemsToProcess env w). i < length (get_queue w)"
  "set (itemsToProcess env w) \<subseteq> set (eligibleItems env w)"
proof -
  show "distinct (itemsToProcess env w)"
    using eligibleItems_props(2) [of env w] by (simp add: itemsToProcess_def)
  show sub: "set (itemsToProcess env w) \<subseteq> set (eligibleItems env w)"
    by (simp add: itemsToProcess_def set_take_subset)
  show "\<forall>i \<in> set (itemsToProcess env w). i < length (get_queue w)"
    using sub eligibleItems_props(3) [of env w] by blast
qed

lemma processQueue_unfold:
  "processQueue env w =
     (if get_queue w = [] then w
      else snd (process_items env (itemsToProcess env w)
                  (get_queue w, snd (filter_eligible env (get_queue w) 0 w))))"
proof -
  obtain e w1 where f: "filter_eligible env (get_queue w) 0 w = (e, w1)"
    by (cases "filter_eligible env (get_queue w) 0 w")
  then show ?thesis
    by (simp add: processQueue_def itemsToProcess_def eligibleItems_def Let_def)
qed

lemma processQueue_none_selected:
  assumes "itemsToProcess env w = []"
  shows "kv (processQueue env w) = kv w \<and> puts (processQueue env w) = puts w"
  using assms filter_eligible_world [of env "get_queue w" 0 w]
  by (simp add: processQueue_unfold)

lemma processQueue_queue:
  "get_queue (processQueue env w) =
     fst (process_items env (itemsToProcess env w)
            (get_queue w, snd (filter_eligible env (get_queue w) 0 w)))"
proof (cases "itemsToProcess env w = []")
  case True
  have "get_queue (snd (filter_eligible env (get_queue w) 0 w)) = get_queue w"
    by (rule get_queue_cong) (simp add: filter_eligible_world)
  with True show ?thesis by (simp add: processQueue_unfold)
next
  case False
  then have "hd (itemsToProcess env w) \<in> set (itemsToProcess env w)" by simp
  then obtain i where "i \<in> set (itemsToProcess env w)" ..
  with itemsToProcess_props(2) [of env w] have "i < length (get_queue w)" by blast
  then have ne: "get_queue w \<noteq> []" by auto
  have "processQueue env w =
      snd (process_items env (itemsToProcess env w)
             (get_queue w, snd (filter_eligible env (get_queue w) 0 w)))"
    using ne by (simp only: processQueue_unfold if_False)
  then show ?thesis
    by (simp only: process_items_stored [OF False])
qed

lemma processQueue_length: "length (get_queue (processQueue env w)) = length (get_queue w)"
  by (simp add: processQueue_queue process_items_length)

lemma processQueue_other:
  "j \<notin> set (itemsToProcess env w) \<Longrightarrow> get_queue (processQueue env w) ! j = get_queue w ! j"
  by (simp add: processQueue_queue process_items_other)

lemma processQueue_done:
  assumes "j \<in> set (itemsToProcess env w)"
  shows "(status (get_queue (processQueue env w) ! j) = completed \<or>
          status (get_queue (processQueue env w) ! j) = failed) \<and>
         attempts (get_queue (processQueue env w) ! j) = Suc (attempts (get_queue w ! j)) \<and>
         lastAttempt (get_queue (processQueue env w) ! j) \<noteq> None"
  unfolding processQueue_queue
  by (rule process_items_done [OF itemsToProcess_props(1) itemsToProcess_props(2) assms])

lemma processQueue_keys:
  "map documentNumber (get_queue (processQueue env w)) = map documentNumber (get_queue w) \<and>
   map rawTextUrl (get_queue (processQueue env w)) = map rawTextUrl (get_queue w)"
  by (simp add: processQueue_queue process_items_keys)

lemma filter_eligible_pending:
  "\<forall>x \<in> set q. status x = pending \<Longrightarrow> filter_eligible env q i w = ([i ..< i + length q], w)"
proof (induction q arbitrary: i)
  case Nil
  show ?case by simp
next
  case (Cons item rest)
  then have "eligible env item w = (True, w)" by (simp add: eligible_def)
  moreover from Cons have "filter_eligible env rest (Suc i) w = ([Suc i ..< Suc i + length rest], w)"
    by simp
  moreover have "[i ..< i + length (item # rest)] = i # [Suc i ..< Suc i + length rest]"
    by (subst upt_rec) simp
  ultimately show ?case by (simp del: upt_Suc)
qed

lemma changed_count:
  assumes "distinct is" and "\<forall>i \<in> set is. i < n"
  shows "length (filter (\<lambda>j. j \<in> set is) [0 ..< n]) = length is"
proof -
  have s: "set (filter (\<lambda>j. j \<in> set is) [0 ..< n]) = set is" using assms by auto
  have "length (filter (\<lambda>j. j \<in> set is) [0 ..< n]) =
          card (set (filter (\<lambda>j. j \<in> set is) [0 ..< n]))"
    by (rule distinct_card [symmetric]) simp
  also have "\<dots> = card (set is)" by (simp only: s)
  also have "\<dots> = length is" by (rule distinct_card [OF assms(1)])
  finally show ?thesis .
qed


subsection \<open>Success and failure of one turn\<close>

lemma get_queue_world_of: "get_queue (world_of q) = q"
  by (simp add: get_queue_def world_of_def)


lemma attempted_simps:
  "documentNumber (attempted env w item) = documentNumber item"
  "rawTextUrl (attempted env w item) = rawTextUrl item"
  "status (attempted env w item) = processing"
  "attempts (attempted env w item) = Suc (attempts item)"
  "lastAttempt (attempted env w item) = Some (now env (tick w))"
  by (simp_all add: attempted_def)


lemma try_summarize_succeeds:
  assumes "http_raw env (tick w) (rawTextUrl item) = HttpResponse ok st text"
    and "summarizeEO env (Suc (tick w)) text = Inr (Some summary)"
  shows "try_summarize env item w =
           (Inr (), kv_put (summaryKey (documentNumber item)) (Text summary) (bump (bump w)))"
  using assms by (simp add: try_summarize_def put_summary_def Let_def bump_simps)


lemma process_item_succeeds:
  assumes i: "i < length q"
    and h: "http_raw env (Suc (tick w)) (rawTextUrl (q ! i)) = HttpResponse ok st text"
    and g: "summarizeEO env (Suc (Suc (tick w))) text = Inr (Some summary)"
  shows "fst (process_item env i (q, w)) = q[i := (attempted env w (q ! i))\<lparr>status := completed\<rparr>]"
    and "puts (snd (process_item env i (q, w))) =
           puts w @ [(''summary_queue'', QueueJson (q[i := attempted env w (q ! i)])),
                     (summaryKey (documentNumber (q ! i)), Text summary),
                     (''summary_queue'', QueueJson (q[i := (attempted env w (q ! i))\<lparr>status := completed\<rparr>]))]"
    and "kv (snd (process_item env i (q, w))) =
           (kv w)(summaryKey (documentNumber (q ! i)) \<mapsto> Text summary,
                  ''summary_queue'' \<mapsto> QueueJson (q[i := (attempted env w (q ! i))\<lparr>status := completed\<rparr>]))"
proof -
  let ?q1 = "q[i := attempted env w (q ! i)]"
  let ?w2 = "kv_put ''summary_queue'' (QueueJson ?q1) (bump w)"
  let ?a = "attempted env w (q ! i)"
  have "http_raw env (tick ?w2) (rawTextUrl ?a) = HttpResponse ok st text"
    and "summarizeEO env (Suc (tick ?w2)) text = Inr (Some summary)"
    using h g by (simp_all add: kv_put_simps bump_simps attempted_simps)
  from try_summarize_succeeds [OF this]
  have t: "try_summarize env ?a ?w2 =
      (Inr (), kv_put (summaryKey (documentNumber ?a)) (Text summary) (bump (bump ?w2)))" .
  have d: "documentNumber ?a = documentNumber (q ! i)"
    by (simp add: attempted_simps)
  show "fst (process_item env i (q, w)) = q[i := (attempted env w (q ! i))\<lparr>status := completed\<rparr>]"
    using i by (simp add: process_item_unfold Let_def t)
  show "puts (snd (process_item env i (q, w))) =
           puts w @ [(''summary_queue'', QueueJson (q[i := attempted env w (q ! i)])),
                     (summaryKey (documentNumber (q ! i)), Text summary),
                     (''summary_queue'', QueueJson (q[i := (attempted env w (q ! i))\<lparr>status := completed\<rparr>]))]"
    using i d by (simp add: process_item_unfold Let_def t kv_put_simps bump_simps)
  show "kv (snd (process_item env i (q, w))) =
           (kv w)(summaryKey (documentNumber (q ! i)) \<mapsto> Text summary,
                  ''summary_queue'' \<mapsto> QueueJson (q[i := (attempted env w (q ! i))\<lparr>status := completed\<rparr>]))"
    using i d summaryKey_not_queue [of "documentNumber (q ! i)"]
    by (simp add: process_item_unfold Let_def t kv_put_simps bump_simps fun_upd_twist)
qed

lemma processQueue_single_pending:
  assumes "get_queue w = [item]" and "status item = pending"
  shows "processQueue env w = snd (process_item env 0 ([item], w))"
  using assms
  by (simp add: processQueue_unfold itemsToProcess_def eligibleItems_def eligible_def
      MAX_CONCURRENT_REQUESTS_def)

subsection \<open>Items at the retry ceiling\<close>

lemma eligible_exhausted:
  "status item = failed \<Longrightarrow> MAX_RETRIES \<le> attempts item \<Longrightarrow> eligible env item w = (False, w)"
  by (simp add: eligible_def)

lemma filter_eligible_member:
  "k \<in> set (fst (filter_eligible env q i w)) \<Longrightarrow> \<exists>w'. fst (eligible env (q ! (k - i)) w')"
proof (induction q arbitrary: i w)
  case Nil
  then show ?case by simp
next
  case (Cons item rest)
  obtain b w1 where e: "eligible env item w = (b, w1)" by (cases "eligible env item w")
  obtain kept w2 where f: "filter_eligible env rest (Suc i) w1 = (kept, w2)"
    by (cases "filter_eligible env rest (Suc i) w1")
  from Cons.prems e f have "(k = i \<and> b) \<or> k \<in> set kept" by (simp split: if_splits)
  then show ?case
  proof
    assume "k = i \<and> b"
    with e have "fst (eligible env ((item # rest) ! (k - i)) w)" by simp
    then show ?thesis ..
  next
    assume k: "k \<in> set kept"
    with f have m: "k \<in> set (fst (filter_eligible env rest (Suc i) w1))" by simp
    from filter_eligible_bounds [OF m] have "Suc i \<le> k" by simp
    then have "(item # rest) ! (k - i) = rest ! (k - Suc i)"
      by (simp add: Suc_diff_le)
    with Cons.IH [OF m] show ?thesis by simp
  qed
qed

lemma exhausted_not_eligible:
  assumes "status (get_queue w ! i) = failed" and "MAX_RETRIES \<le> attempts (get_queue w ! i)"
  shows "i \<notin> set (eligibleItems env w)" and "i \<notin> set (itemsToProcess env w)"
proof -
  show n: "i \<notin> set (eligibleItems env w)"
  proof
    assume "i \<in> set (eligibleItems env w)"
    then have "i \<in> set (fst (filter_eligible env (get_queue w) 0 w))"
      by (simp add: eligibleItems_def)
    from filter_eligible_member [OF this] obtain w' where
      "fst (eligible env (get_queue w ! i) w')" by auto
    with eligible_exhausted [OF assms, of env w'] show False by simp
  qed
  with itemsToProcess_props(3) [of env w] show "i \<notin> set (itemsToProcess env w)" by blast
qed

subsection \<open>updateCache and the queue\<close>

lemma fetchExecutiveOrders_world:
  "kv (snd (fetchExecutiveOrders env w)) = kv w \<and>
   puts (snd (fetchExecutiveOrders env w)) = puts w \<and>
   tick (snd (fetchExecutiveOrders env w)) = Suc (Suc (tick w))"
  by (simp add: fetchExecutiveOrders_def Date_now_def Let_def bump_simps
      split: ListingResult.split option.split)

lemma enqueueNew_queue:
  "get_queue (enqueueNew orders' w) = get_queue w @ newQueueItems orders' w"
  by (simp add: enqueueNew_def Let_def get_queue_put_queue)

lemma updateCache_queue:
  "\<exists>new. get_queue (snd (updateCache env summary w)) = get_queue w @ new"
proof (cases "fetchExecutiveOrders env w")
  case (Pair r w1)
  with fetchExecutiveOrders_world [of env w] have k: "kv w1 = kv w" by simp
  then have g1: "get_queue w1 = get_queue w" by (intro get_queue_cong) simp
  show ?thesis
  proof (cases r)
    case (Inl e)
    with Pair g1 show ?thesis by (simp add: updateCache_def)
  next
    case (Inr os)
    let ?w3 = "kv_put ''orders'' (OrdersJson \<lparr>lastUpdated = now env (tick w1), orders = os\<rparr>) (bump w1)"
    have g3: "get_queue ?w3 = get_queue w"
      using g1 by (simp add: get_queue_put_other get_queue_bump)
    show ?thesis
    proof (cases summary)
      case True
      with Pair Inr have "snd (updateCache env summary w) = enqueueNew os ?w3"
        by (simp add: updateCache_def Date_now_def Let_def)
      then show ?thesis by (simp add: enqueueNew_queue g3)
    next
      case False
      with Pair Inr have "snd (updateCache env summary w) = ?w3"
        by (simp add: updateCache_def Date_now_def Let_def)
      then show ?thesis by (simp add: g3)
    qed
  qed
qed

lemma invoke_keeps_exhausted:
  assumes "i < length (get_queue w)" and "status (get_queue w ! i) = failed"
    and "MAX_RETRIES \<le> attempts (get_queue w ! i)"
  shows "i < length (get_queue (invoke env c w)) \<and>
         get_queue (invoke env c w) ! i = get_queue w ! i"
proof (cases c)
  case ProcessQueue
  from exhausted_not_eligible(2) [OF assms(2,3), of env]
  have "get_queue (processQueue env w) ! i = get_queue w ! i" by (rule processQueue_other)
  with ProcessQueue assms(1) show ?thesis by (simp add: processQueue_length)
next
  case (UpdateCache summary)
  from updateCache_queue [of env summary w] obtain new where
    "get_queue (snd (updateCache env summary w)) = get_queue w @ new" ..
  with UpdateCache assms(1) show ?thesis by (simp add: nth_append)
qed

lemma fetchExecutiveOrders_fails:
  "listing_fails env (Suc (tick w)) \<Longrightarrow> \<exists>e. fst (fetchExecutiveOrders env w) = Inl e"
  by (auto simp: listing_fails_def fetchExecutiveOrders_def Date_now_def Let_def bump_simps
      split: ListingResult.splits option.splits)

lemma fetchExecutiveOrders_ok:
  "listing env (Suc (tick w)) = ListingResponse True st (Some results) \<Longrightarrow>
   fetchExecutiveOrders env w = (Inr (map normalize_result results), bump (bump w))"
  by (simp add: fetchExecutiveOrders_def Date_now_def Let_def bump_simps)

lemma enqueueNew_puts:
  "puts (enqueueNew orders' w) = puts w \<or>
   (\<exists>q. puts (enqueueNew orders' w) = puts w @ [(''summary_queue'', QueueJson q)])"
  by (simp add: enqueueNew_def Let_def kv_put_simps)

lemma enqueueNew_kv_other:
  "k \<noteq> ''summary_queue'' \<Longrightarrow> kv (enqueueNew orders' w) k = kv w k"
  by (simp add: enqueueNew_def Let_def kv_put_simps)

lemma newQueueItems_docs:
  "map documentNumber (newQueueItems orders' w) =
     filter (\<lambda>d. d \<notin> set (map documentNumber (get_queue w))) (map document_number orders')"
  by (simp add: newQueueItems_def Let_def filter_map comp_def)

lemma enqueueNew_distinct:
  assumes "distinct (map documentNumber (get_queue w))" and "distinct (map document_number orders')"
  shows "distinct (map documentNumber (get_queue (enqueueNew orders' w)))"
proof -
  have "map documentNumber (get_queue (enqueueNew orders' w)) =
      map documentNumber (get_queue w) @
      filter (\<lambda>d. d \<notin> set (map documentNumber (get_queue w))) (map document_number orders')"
    by (simp only: enqueueNew_queue map_append newQueueItems_docs)
  with assms show ?thesis by auto
qed

lemma enqueueNew_on_empty:
  "get_queue w = [] \<Longrightarrow>
   map documentNumber (get_queue (enqueueNew orders' w)) = map document_number orders'"
  by (simp add: enqueueNew_queue newQueueItems_docs)

lemma normalize_document_number: "map document_number (map normalize_result results) = map document_number results"
  by (simp add: normalize_result_def comp_def)

lemma updateCache_distinct:
  assumes d: "distinct (map documentNumber (get_queue w))"
    and l: "\<forall>t st results. listing env t = ListingResponse True st (Some results) \<longrightarrow>
              distinct (map document_number results)"
  shows "distinct (map documentNumber (get_queue (snd (updateCache env summary w))))"
proof (cases "listing env (Suc (tick w))")
  case ListingNetworkError
  then have "listing_fails env (Suc (tick w))" by (simp add: listing_fails_def)
  from fetchExecutiveOrders_fails [OF this] obtain e where
    e: "fst (fetchExecutiveOrders env w) = Inl e" ..
  obtain r w1 where p: "fetchExecutiveOrders env w = (r, w1)"
    by (cases "fetchExecutiveOrders env w")
  with fetchExecutiveOrders_world [of env w] have "kv w1 = kv w" by simp
  then have "get_queue w1 = get_queue w" by (intro get_queue_cong) simp
  with e p d show ?thesis by (simp add: updateCache_def)
next
  case (ListingResponse ok st body)
  show ?thesis
  proof (cases "ok \<and> body \<noteq> None")
    case False
    with ListingResponse have "listing_fails env (Suc (tick w))" by (auto simp: listing_fails_def)
    from fetchExecutiveOrders_fails [OF this] obtain e where
      e: "fst (fetchExecutiveOrders env w) = Inl e" ..
    obtain r w1 where p: "fetchExecutiveOrders env w = (r, w1)"
      by (cases "fetchExecutiveOrders env w")
    with fetchExecutiveOrders_world [of env w] have "kv w1 = kv w" by simp
    then have "get_queue w1 = get_queue w" by (intro get_queue_cong) simp
    with e p d show ?thesis by (simp add: updateCache_def)
  next
    case True
    then obtain results where b: "body = Some results" and ok: ok by auto
    with ListingResponse have a: "listing env (Suc (tick w)) = ListingResponse True st (Some results)"
      by simp
    with l have "distinct (map document_number results)" by blast
    then have dr: "distinct (map document_number (map normalize_result results))"
      by (simp only: normalize_document_number)
    let ?w3 = "kv_put ''orders'' (OrdersJson \<lparr>lastUpdated = now env (Suc (Suc (tick w))),
                            orders = map normalize_result results\<rparr>) (bump (bump (bump w)))"
    have u: "snd (updateCache env summary w) =
        (if summary then enqueueNew (map normalize_result results) ?w3 else ?w3)"
      by (simp add: updateCache_def fetchExecutiveOrders_ok [OF a] Date_now_def Let_def bump_simps)
    have g3: "get_queue ?w3 = get_queue w"
      by (simp add: get_queue_put_other get_queue_bump)
    with d have d3: "distinct (map documentNumber (get_queue ?w3))" by simp
    from enqueueNew_distinct [OF d3 dr] d3 u show ?thesis by simp
  qed
qed

lemma invoke_distinct:
  assumes "distinct (map documentNumber (get_queue w))"
    and "\<forall>t st results. listing env t = ListingResponse True st (Some results) \<longrightarrow>
              distinct (map document_number results)"
  shows "distinct (map documentNumber (get_queue (invoke env c w)))"
proof (cases c)
  case ProcessQueue
  with assms(1) processQueue_keys [of env w] show ?thesis by simp
next
  case (UpdateCache summary)
  with updateCache_distinct [OF assms, of summary] show ?thesis by simp
qed

subsection \<open>The external backend\<close>

lemma summarizeEOClaude_returns:
  "summarizeEOClaude env t text = Inr r \<longleftrightarrow> claude_api env t text = ClaudeResponse True (Content r)"
  by (auto simp: summarizeEOClaude_def split: ClaudeResult.splits if_splits ClaudeBody.splits)

lemma summarizeEO_hosted:
  "summarizeEO env t text =
     (case summarizeEOCF env t text of Inl e \<Rightarrow> Inl e | Inr s \<Rightarrow> Inr (Some s))"
  by (simp add: summarizeEO_def AI_USE_CF_def)

subsection \<open>The filter, exactly\<close>

lemma eligible_eq:
  "eligible env item w = (eligible_at env (tick w) item, if reads_clock item then bump w else w)"
  by (auto simp: eligible_def eligible_at_def reads_clock_def Date_now_def split: option.splits)

lemma filter_eligible_Cons:
  "filter_eligible env (item # rest) i w =
     (let w1 = (if reads_clock item then bump w else w)
      in ((if eligible_at env (tick w) item then [i] else []) @
            fst (filter_eligible env rest (Suc i) w1),
          snd (filter_eligible env rest (Suc i) w1)))"
  by (simp add: eligible_eq Let_def split: prod.splits)


lemma filter_eligible_mem:
  "k \<in> set (fst (filter_eligible env q i w)) \<longleftrightarrow>
     i \<le> k \<and> k < i + length q \<and>
     eligible_at env (tick w + clock_reads (take (k - i) q)) (q ! (k - i))"
proof (induction q arbitrary: i w)
  case Nil
  show ?case by simp
next
  case (Cons item rest)
  let ?w1 = "if reads_clock item then bump w else w"
  have t1: "tick ?w1 = tick w + clock_reads [item]"
    by (simp add: clock_reads_def bump_simps)
  show ?case
  proof (cases "k = i")
    case True
    have "i \<notin> set (fst (filter_eligible env rest (Suc i) ?w1))"
      using filter_eligible_bounds [of i env rest "Suc i" ?w1] by auto
    with True show ?thesis
      unfolding filter_eligible_Cons Let_def fst_conv
      by (simp add: clock_reads_def)
  next
    case False
    show ?thesis
    proof (cases "i < k")
      case True
      then obtain d where d: "k - i = Suc d" and d': "k - Suc i = d"
        by (cases "k - i") auto
      have "clock_reads (take (Suc d) (item # rest)) = clock_reads [item] + clock_reads (take d rest)"
        by (simp add: clock_reads_def)
      with True False d d' t1 show ?thesis
        unfolding filter_eligible_Cons Let_def fst_conv
        by (simp add: Cons.IH [of "Suc i" ?w1] add.assoc)
    next
      case False
      with \<open>k \<noteq> i\<close> have "k < i" by simp
      then have "k \<notin> set (fst (filter_eligible env rest (Suc i) ?w1))"
        using filter_eligible_bounds [of k env rest "Suc i" ?w1] by auto
      with \<open>k < i\<close> show ?thesis
        unfolding filter_eligible_Cons Let_def fst_conv by simp
    qed
  qed
qed

lemma eligibleItems_exact:
  "eligibleItems env w =
     filter (\<lambda>k. eligible_at env (tick w + clock_reads (take k (get_queue w))) (get_queue w ! k))
       [0 ..< length (get_queue w)]"
proof (rule sorted_distinct_set_unique)
  show "sorted (eligibleItems env w)" "distinct (eligibleItems env w)"
    by (rule eligibleItems_props)+
  show "sorted (filter (\<lambda>k. eligible_at env (tick w + clock_reads (take k (get_queue w))) (get_queue w ! k))
       [0 ..< length (get_queue w)])"
    by (rule sorted_wrt_filter) simp
  show "distinct (filter (\<lambda>k. eligible_at env (tick w + clock_reads (take k (get_queue w))) (get_queue w ! k))
       [0 ..< length (get_queue w)])" by simp
  show "set (eligibleItems env w) =
    set (filter (\<lambda>k. eligible_at env (tick w + clock_reads (take k (get_queue w))) (get_queue w ! k))
       [0 ..< length (get_queue w)])"
    using filter_eligible_mem [of _ env "get_queue w" 0 w]
    by (auto simp: eligibleItems_def)
qed




subsection \<open>A task that runs alone\<close>

lemma interleave_append:
  "interleave env (a @ b) c = interleave env b (interleave env a c)"
proof (induction a arbitrary: c)
  case Nil
  show ?case by simp
next
  case (Cons t a)
  obtain u p w where c: "c = (u, p, w)" by (cases c)
  show ?case
  proof (cases t)
    case TUpdateCache
    with c Cons.IH show ?thesis by (simp add: Let_def split: prod.splits)
  next
    case TProcessQueue
    with c Cons.IH show ?thesis by (simp add: Let_def split: prod.splits)
  qed
qed

lemma pq_done_stays:
  "interleave env (replicate n TProcessQueue) (u, PDone, w) = (u, PDone, w)"
  by (induction n) (simp_all add: pq_step_def)

lemma uc_done_stays:
  "interleave env (replicate n TUpdateCache) (UDone r, p, w) = (UDone r, p, w)"
  by (induction n) (simp_all add: uc_step_def)

lemma begin_turn_Cons:
  "begin_turn env q (i # rest) w = (PPutProcessing (q[i := attempted env w (q ! i)]) i rest, bump w)"
  by (simp add: begin_turn_def Date_now_def attempted_def)

lemma pq_turn:
  "\<exists>j. 1 \<le> j \<and> j \<le> 5 \<and>
     interleave env (replicate j TProcessQueue) (u, begin_turn env q (i # rest) w) =
       (u, begin_turn env (fst (process_item env i (q, w))) rest (snd (process_item env i (q, w))))"
proof -
  let ?q1 = "q[i := attempted env w (q ! i)]"
  let ?w2 = "kv_put ''summary_queue'' (QueueJson ?q1) (bump w)"
  have r3: "replicate 3 TProcessQueue = [TProcessQueue, TProcessQueue, TProcessQueue]"
    and r4: "replicate 4 TProcessQueue = [TProcessQueue, TProcessQueue, TProcessQueue, TProcessQueue]"
    and r5: "replicate 5 TProcessQueue =
      [TProcessQueue, TProcessQueue, TProcessQueue, TProcessQueue, TProcessQueue]"
    by (simp_all add: numeral_eq_Suc)
  show ?thesis
  proof (cases "http_raw env (tick ?w2) (rawTextUrl (?q1 ! i))")
    case NetworkError
    then have "interleave env (replicate 3 TProcessQueue) (u, begin_turn env q (i # rest) w) =
       (u, begin_turn env (fst (process_item env i (q, w))) rest (snd (process_item env i (q, w))))"
      unfolding r3
      by (simp add: begin_turn_Cons process_item_unfold try_summarize_def pq_step_def Let_def)
    then show ?thesis by (intro exI [of _ 3]) simp
  next
    case (HttpResponse ok st body)
    show ?thesis
    proof (cases "summarizeEO env (tick (bump ?w2)) body")
      case (Inl e)
      with HttpResponse
      have "interleave env (replicate 4 TProcessQueue) (u, begin_turn env q (i # rest) w) =
       (u, begin_turn env (fst (process_item env i (q, w))) rest (snd (process_item env i (q, w))))"
        unfolding r4
        by (simp add: begin_turn_Cons process_item_unfold try_summarize_def pq_step_def Let_def)
      then show ?thesis by (intro exI [of _ 4]) simp
    next
      case (Inr summary)
      obtain r w' where ps: "put_summary env (documentNumber (?q1 ! i)) summary (bump (bump ?w2)) = (r, w')"
        by (cases "put_summary env (documentNumber (?q1 ! i)) summary (bump (bump ?w2))")
      with HttpResponse Inr
      have "interleave env (replicate 5 TProcessQueue) (u, begin_turn env q (i # rest) w) =
       (u, begin_turn env (fst (process_item env i (q, w))) rest (snd (process_item env i (q, w))))"
        unfolding r5
        by (cases r)
          (simp_all add: begin_turn_Cons process_item_unfold try_summarize_def pq_step_def Let_def)
      then show ?thesis by (intro exI [of _ 5]) simp
    qed
  qed
qed

lemma pq_run_turns:
  "5 * length is \<le> n \<Longrightarrow>
   interleave env (replicate n TProcessQueue) (u, begin_turn env q is w) =
     (u, PDone, snd (process_items env is (q, w)))"
proof (induction "is" arbitrary: n q w)
  case Nil
  show ?case by (simp add: begin_turn_def pq_done_stays)
next
  case (Cons i rest)
  from pq_turn [of env u q i rest w] obtain j where j: "1 \<le> j" "j \<le> 5"
    and t: "interleave env (replicate j TProcessQueue) (u, begin_turn env q (i # rest) w) =
       (u, begin_turn env (fst (process_item env i (q, w))) rest (snd (process_item env i (q, w))))"
    by blast
  from Cons.prems j have n: "n = j + (n - j)" and m: "5 * length rest \<le> n - j" by simp_all
  have "interleave env (replicate n TProcessQueue) (u, begin_turn env q (i # rest) w) =
      interleave env (replicate (n - j) TProcessQueue)
        (interleave env (replicate j TProcessQueue) (u, begin_turn env q (i # rest) w))"
    by (subst n) (simp only: replicate_add interleave_append)
  also have "\<dots> = (u, PDone, snd (process_items env rest (process_item env i (q, w))))"
    unfolding t using Cons.IH [OF m, of "fst (process_item env i (q, w))" "snd (process_item env i (q, w))"]
    by simp
  finally show ?case by simp
qed

lemma processQueue_alone:
  assumes "Suc (5 * MAX_CONCURRENT_REQUESTS) \<le> n"
  shows "interleave env (replicate n TProcessQueue) (u, PGet, w) = (u, PDone, processQueue env w)"
proof -
  from assms obtain m where n: "n = Suc m" and m: "5 * MAX_CONCURRENT_REQUESTS \<le> m"
    by (cases n) auto
  show ?thesis
  proof (cases "get_queue w = []")
    case True
    then show ?thesis
      by (simp add: n pq_step_def processQueue_unfold pq_done_stays)
  next
    case False
    have "length (itemsToProcess env w) \<le> MAX_CONCURRENT_REQUESTS"
      by (simp add: itemsToProcess_def)
    with m have l: "5 * length (itemsToProcess env w) \<le> m" by simp
    have "pq_step env PGet w =
        begin_turn env (get_queue w) (itemsToProcess env w)
          (snd (filter_eligible env (get_queue w) 0 w))"
      using False
      by (simp add: pq_step_def itemsToProcess_def eligibleItems_def Let_def split: prod.splits)
    then have "interleave env (replicate n TProcessQueue) (u, PGet, w) =
        interleave env (replicate m TProcessQueue)
          (u, begin_turn env (get_queue w) (itemsToProcess env w)
                (snd (filter_eligible env (get_queue w) 0 w)))"
      by (simp add: n split: prod.splits)
    also have "\<dots> = (u, PDone, processQueue env w)"
      using False by (simp add: pq_run_turns [OF l] processQueue_unfold)
    finally show ?thesis .
  qed
qed

lemma updateCache_alone:
  assumes "4 \<le> n"
  shows "interleave env (replicate n TUpdateCache) (UFetch summary, p, w) =
           (UDone (case fst (updateCache env summary w) of Inl e \<Rightarrow> Some e | Inr x \<Rightarrow> None),
            p, snd (updateCache env summary w))"
proof -
  from assms have n: "n = 4 + (n - 4)" by simp
  have r4: "replicate 4 TUpdateCache = [TUpdateCache, TUpdateCache, TUpdateCache, TUpdateCache]"
    by (simp add: numeral_eq_Suc)
  have "interleave env (replicate 4 TUpdateCache) (UFetch summary, p, w) =
           (UDone (case fst (updateCache env summary w) of Inl e \<Rightarrow> Some e | Inr x \<Rightarrow> None),
            p, snd (updateCache env summary w))"
  proof (cases "fetchExecutiveOrders env w")
    case (Pair r w1)
    show ?thesis
    proof (cases r)
      case (Inl e)
      with Pair show ?thesis unfolding r4 by (simp add: uc_step_def updateCache_def)
    next
      case (Inr os)
      with Pair show ?thesis unfolding r4
        by (simp add: uc_step_def updateCache_def enqueueNew_def Date_now_def Let_def
            get_queue_put_other get_queue_bump newQueueItems_def)
    qed
  qed
  then have "interleave env (replicate n TUpdateCache) (UFetch summary, p, w) =
      interleave env (replicate (n - 4) TUpdateCache)
        (UDone (case fst (updateCache env summary w) of Inl e \<Rightarrow> Some e | Inr x \<Rightarrow> None),
            p, snd (updateCache env summary w))"
    by (subst n) (simp only: replicate_add interleave_append)
  then show ?thesis by (simp only: uc_done_stays)
qed

subsection \<open>Document numbers under every schedule\<close>

lemma fetchExecutiveOrders_distinct:
  assumes "listings_distinct env" and "fst (fetchExecutiveOrders env w) = Inr os"
  shows "distinct (map document_number os)"
proof (cases "listing env (Suc (tick w))")
  case ListingNetworkError
  with assms(2) show ?thesis
    by (simp add: fetchExecutiveOrders_def Date_now_def Let_def bump_simps)
next
  case (ListingResponse ok st body)
  with assms(2) obtain results where b: "body = Some results" and ok: ok
    and os: "os = map normalize_result results"
    by (auto simp: fetchExecutiveOrders_def Date_now_def Let_def bump_simps
        split: if_splits option.splits)
  with ListingResponse assms(1) have "distinct (map document_number results)"
    by (auto simp: listings_distinct_def)
  with os show ?thesis by (simp only: normalize_document_number)
qed

lemma map_list_update_same:
  assumes "f x = f (q ! i)"
  shows "map f (q[i := x]) = map f q"
proof (cases "i < length q")
  case True
  then have "(map f q)[i := f (q ! i)] = map f q"
    by (metis list_update_id nth_map)
  with assms show ?thesis by (simp add: map_update)
next
  case False
  then have "length q \<le> i" by simp
  then show ?thesis by (simp only: list_update_beyond)
qed

lemma documentNumber_update:
  "map documentNumber (q[i := (q ! i)\<lparr>status := s\<rparr>]) = map documentNumber q"
  "map documentNumber (q[i := attempted env w (q ! i)]) = map documentNumber q"
  by (rule map_list_update_same, simp add: attempted_def)+

lemma uc_step_inv:
  assumes "listings_distinct env" and "uc_inv u" and "distinct (map documentNumber (get_queue w))"
  shows "uc_inv (fst (uc_step env u w)) \<and>
         distinct (map documentNumber (get_queue (snd (uc_step env u w))))"
proof (cases u)
  case (UFetch summary)
  obtain r w1 where f: "fetchExecutiveOrders env w = (r, w1)"
    by (cases "fetchExecutiveOrders env w")
  with fetchExecutiveOrders_world [of env w] have "kv w1 = kv w" by simp
  then have g: "get_queue w1 = get_queue w" by (intro get_queue_cong) simp
  show ?thesis
  proof (cases r)
    case (Inl e)
    with UFetch f g assms(3) show ?thesis by (simp add: uc_step_def)
  next
    case (Inr os)
    with f fetchExecutiveOrders_distinct [OF assms(1), of w os]
    have "distinct (map document_number os)" by simp
    with UFetch f Inr g assms(3) show ?thesis
      by (simp add: uc_step_def Date_now_def get_queue_bump)
  qed
next
  case (UPutOrders summary cacheData)
  with assms(2,3) show ?thesis
    by (simp add: uc_step_def Let_def get_queue_put_other)
next
  case (UGetQueue os)
  with assms(2) have d: "distinct (map document_number os)" by simp
  have "distinct (map documentNumber (get_queue w @ newQueueItems os w))"
    using assms(3) d by (auto simp: newQueueItems_docs)
  with UGetQueue assms(3) show ?thesis
    by (simp add: uc_step_def Let_def)
next
  case (UPutQueue q)
  with assms(2) show ?thesis by (simp add: uc_step_def get_queue_put_queue)
next
  case (UDone r)
  with assms(3) show ?thesis by (simp add: uc_step_def)
qed

lemma begin_turn_inv:
  assumes "distinct (map documentNumber q)" and "get_queue w = g"
  shows "pq_inv (fst (begin_turn env q is w)) \<and> get_queue (snd (begin_turn env q is w)) = g"
proof (cases "is")
  case Nil
  with assms(2) show ?thesis by (simp add: begin_turn_def)
next
  case (Cons i rest)
  with assms show ?thesis
    by (simp add: begin_turn_Cons documentNumber_update get_queue_bump)
qed

lemma put_summary_queue:
  "get_queue (snd (put_summary env doc summary w)) = get_queue w"
  by (simp add: put_summary_def get_queue_put_other summaryKey_not_queue
      split: option.splits)

lemma pq_step_inv:
  assumes "pq_inv p" and "distinct (map documentNumber (get_queue w))"
  shows "pq_inv (fst (pq_step env p w)) \<and>
         distinct (map documentNumber (get_queue (snd (pq_step env p w))))"
proof (cases p)
  case PGet
  show ?thesis
  proof (cases "get_queue w = []")
    case True
    with PGet show ?thesis by (simp add: pq_step_def)
  next
    case False
    obtain e w1 where f: "filter_eligible env (get_queue w) 0 w = (e, w1)"
      by (cases "filter_eligible env (get_queue w) 0 w")
    with filter_eligible_world [of env "get_queue w" 0 w] have "kv w1 = kv w" by simp
    then have g: "get_queue w1 = get_queue w" by (intro get_queue_cong) simp
    from begin_turn_inv [OF assms(2) g, of env "take MAX_CONCURRENT_REQUESTS e"]
    show ?thesis using PGet False f assms(2) by (simp add: pq_step_def Let_def)
  qed
next
  case (PPutProcessing q i rest)
  with assms(1) show ?thesis by (simp add: pq_step_def get_queue_put_queue)
next
  case (PFetch q i rest)
  with assms show ?thesis
    by (simp add: pq_step_def documentNumber_update get_queue_bump split: HttpResult.splits)
next
  case (PSummarize q i rest body)
  with assms show ?thesis
    by (simp add: pq_step_def documentNumber_update get_queue_bump split: sum.splits)
next
  case (PPutSummary q i rest summary)
  obtain r w1 where ps: "put_summary env (documentNumber (q ! i)) summary w = (r, w1)"
    by (cases "put_summary env (documentNumber (q ! i)) summary w")
  with put_summary_queue [of env "documentNumber (q ! i)" summary w]
  have "get_queue w1 = get_queue w" by simp
  with PPutSummary assms ps show ?thesis
    by (cases r) (simp_all add: pq_step_def documentNumber_update)
next
  case (PPutQueue q rest)
  with assms(1) have d: "distinct (map documentNumber q)" by simp
  have g: "get_queue (kv_put ''summary_queue'' (QueueJson q) w) = q"
    by (rule get_queue_put_queue)
  from begin_turn_inv [OF d g, of env rest] PPutQueue d show ?thesis
    by (simp add: pq_step_def)
next
  case PDone
  with assms(2) show ?thesis by (simp add: pq_step_def)
qed

lemma interleave_inv:
  assumes "listings_distinct env"
  shows "uc_inv u \<Longrightarrow> pq_inv p \<Longrightarrow> distinct (map documentNumber (get_queue w)) \<Longrightarrow>
         distinct (map documentNumber (get_queue (world_after (interleave env sched (u, p, w)))))"
proof (induction sched arbitrary: u p w)
  case Nil
  then show ?case by (simp add: world_after_def)
next
  case (Cons t sched)
  show ?case
  proof (cases t)
    case TUpdateCache
    obtain u' w' where s: "uc_step env u w = (u', w')" by (cases "uc_step env u w")
    with uc_step_inv [OF assms Cons.prems(1,3)]
    have "uc_inv u'" "distinct (map documentNumber (get_queue w'))" by simp_all
    from Cons.IH [OF this(1) Cons.prems(2) this(2)] TUpdateCache s show ?thesis by simp
  next
    case TProcessQueue
    obtain p' w' where s: "pq_step env p w = (p', w')" by (cases "pq_step env p w")
    with pq_step_inv [OF Cons.prems(2,3), of env]
    have "pq_inv p'" "distinct (map documentNumber (get_queue w'))" by simp_all
    from Cons.IH [OF Cons.prems(1) this] TProcessQueue s show ?thesis by simp
  qed
qed

lemma scheduled_distinct:
  assumes "listings_distinct env" and "distinct (map documentNumber (get_queue w))"
  shows "distinct (map documentNumber (get_queue (world_after (scheduled env sched w))))"
  unfolding scheduled_def
  by (rule interleave_inv [OF assms(1) _ _ assms(2)]) simp_all

subsection \<open>The race\<close>

lemmas race_simps =
  scheduled_def race_schedule_def race_start_def env_race_def env_ok_def world_of_def
  failed_item_def pending_item_def order_A_def normalize_result_def
  uc_step_def pq_step_def begin_turn_def fetchExecutiveOrders_def Date_now_def bump_def
  kv_put_def get_queue_def newQueueItems_def eligible_def
  MAX_RETRIES_def MAX_CONCURRENT_REQUESTS_def RETRY_DELAY_MS_def Let_def world_after_def

lemma race_mid:
  "get_queue (world_after (scheduled env_race race_schedule race_start)) =
     [\<lparr>documentNumber = ''Z'', rawTextUrl = ''https://www.federalregister.gov/raw/Z'',
       status = failed, attempts = 3, lastAttempt = Some 1700000000004\<rparr>]"
  by (simp add: race_simps)

lemma race_end:
  "get_queue (world_after (scheduled env_race (race_schedule @ [TUpdateCache]) race_start)) =
     [\<lparr>documentNumber = ''Z'', rawTextUrl = ''https://www.federalregister.gov/raw/Z'',
       status = failed, attempts = 2, lastAttempt = Some 1699999000000\<rparr>,
      \<lparr>documentNumber = ''A'', rawTextUrl = ''https://www.federalregister.gov/raw/A'',
       status = pending, attempts = 0, lastAttempt = None\<rparr>]"
  by (simp add: race_simps)

section \<open>The claims\<close>

text \<open>
  C1. The queue under \<^verbatim>\<open>summary_queue\<close> keeps pairwise distinct document numbers: an
  item is appended only for a document number that is not in the stored queue. This holds
  through any number of calls of \<open>enqueueNew\<close> on inputs whose records have pairwise
  distinct document numbers (the record's unique key), whatever the inputs share with
  each other; through any invocations of \<open>updateCache\<close> and \<open>processQueue\<close> in turn; and
  in every state the scheduled trigger reaches, under every schedule of its two tasks.
\<close>

theorem enqueueNew_no_duplicates:
  assumes "distinct (map documentNumber (get_queue w))"
  shows "((\<forall>orders' \<in> set batches. distinct (map document_number orders')) \<longrightarrow>
            distinct (map documentNumber (get_queue (fold enqueueNew batches w)))) \<and>
         (listings_distinct env \<longrightarrow>
            distinct (map documentNumber (get_queue (in_turn env cs w)))) \<and>
         (listings_distinct env \<longrightarrow>
            distinct (map documentNumber (get_queue (world_after (scheduled env sched w)))))"
proof -
  have folded: "(\<forall>orders' \<in> set batches. distinct (map document_number orders')) \<longrightarrow>
            distinct (map documentNumber (get_queue (fold enqueueNew batches w)))"
    using assms
  proof (induction batches arbitrary: w)
    case Nil
    then show ?case by simp
  next
    case (Cons b bs)
    show ?case
    proof
      assume a: "\<forall>orders' \<in> set (b # bs). distinct (map document_number orders')"
      then have "distinct (map document_number b)" by simp
      from enqueueNew_distinct [OF Cons.prems this]
      have "distinct (map documentNumber (get_queue (enqueueNew b w)))" .
      from Cons.IH [OF this] a
      show "distinct (map documentNumber (get_queue (fold enqueueNew (b # bs) w)))" by simp
    qed
  qed
  have turns: "listings_distinct env \<longrightarrow>
            distinct (map documentNumber (get_queue (in_turn env cs w)))"
  proof
    assume "listings_distinct env"
    then have l: "\<forall>t st results. listing env t = ListingResponse True st (Some results) \<longrightarrow>
              distinct (map document_number results)"
      by (simp add: listings_distinct_def)
    from assms show "distinct (map documentNumber (get_queue (in_turn env cs w)))"
    proof (induction cs arbitrary: w)
      case Nil
      then show ?case by simp
    next
      case (Cons c cs)
      from invoke_distinct [OF Cons.prems l]
      have "distinct (map documentNumber (get_queue (invoke env c w)))" .
      from Cons.IH [OF this] show ?case by simp
    qed
  qed
  have together: "listings_distinct env \<longrightarrow>
            distinct (map documentNumber (get_queue (world_after (scheduled env sched w))))"
    using scheduled_distinct [OF _ assms] by blast
  from folded turns together show ?thesis by blast
qed

theorem enqueueNew_no_duplicates_witness:
  "distinct (map documentNumber (get_queue empty_world)) \<and>
   list_all (\<lambda>orders'. distinct (map document_number orders'))
     [[normalize_result order_A], [normalize_result order_A]] \<and>
   listings_distinct (env_listing [order_A]) \<and>
   distinct (map documentNumber (get_queue
     (fold enqueueNew [[normalize_result order_A], [normalize_result order_A]] empty_world))) \<and>
   distinct (map documentNumber (get_queue
     (in_turn (env_listing [order_A]) [UpdateCache True, ProcessQueue, UpdateCache True]
        empty_world))) \<and>
   distinct (map documentNumber (get_queue (world_after
     (scheduled (env_listing [order_A])
        [TUpdateCache, TProcessQueue, TUpdateCache, TUpdateCache, TUpdateCache] empty_world))))"
proof -
  have q: "distinct (map documentNumber (get_queue empty_world))"
    by (simp add: get_queue_def empty_world_def)
  have b: "\<forall>orders' \<in> set [[normalize_result order_A], [normalize_result order_A]].
      distinct (map document_number orders')" by simp
  have l: "listings_distinct (env_listing [order_A])"
    by (simp add: listings_distinct_def env_listing_def)
  from enqueueNew_no_duplicates [OF q, of "[[normalize_result order_A], [normalize_result order_A]]"
      "env_listing [order_A]" "[UpdateCache True, ProcessQueue, UpdateCache True]"
      "[TUpdateCache, TProcessQueue, TUpdateCache, TUpdateCache, TUpdateCache]"] b l
  have "distinct (map documentNumber (get_queue
       (fold enqueueNew [[normalize_result order_A], [normalize_result order_A]] empty_world))) \<and>
     distinct (map documentNumber (get_queue
       (in_turn (env_listing [order_A]) [UpdateCache True, ProcessQueue, UpdateCache True]
          empty_world))) \<and>
     distinct (map documentNumber (get_queue (world_after
       (scheduled (env_listing [order_A])
          [TUpdateCache, TProcessQueue, TUpdateCache, TUpdateCache, TUpdateCache] empty_world))))"
    by blast
  with q l show ?thesis by simp
qed

text \<open>
  C2. The eligible items are exactly the positions of the queue whose item satisfies the
  filter's predicate at the counter where the filter tests it, in increasing order. The
  slice \<open>itemsToProcess\<close> is the first \<open>min MAX_CONCURRENT_REQUESTS n\<close> of these \<open>n\<close>
  positions, so it has at most \<open>MAX_CONCURRENT_REQUESTS\<close> items; the items of the slice end
  completed or failed with one more attempt, all others are unchanged, and the number of
  changed items is the length of the slice. With 7 items, all pending, the first 5 are no
  longer pending and the last 2 still are.
\<close>

theorem processQueue_batch_bound:
  "eligibleItems env w =
     filter (\<lambda>k. eligible_at env (tick w + clock_reads (take k (get_queue w))) (get_queue w ! k))
       [0 ..< length (get_queue w)] \<and>
   (\<forall>item w'. fst (eligible env item w') = eligible_at env (tick w') item) \<and>
   length (itemsToProcess env w) = min MAX_CONCURRENT_REQUESTS (length (eligibleItems env w)) \<and>
   itemsToProcess env w = take (min MAX_CONCURRENT_REQUESTS (length (eligibleItems env w))) (eligibleItems env w) \<and>
   (\<forall>j < length (get_queue w).
      if j \<in> set (itemsToProcess env w)
      then (status (get_queue (processQueue env w) ! j) = completed \<or>
            status (get_queue (processQueue env w) ! j) = failed) \<and>
           attempts (get_queue (processQueue env w) ! j) = Suc (attempts (get_queue w ! j))
      else get_queue (processQueue env w) ! j = get_queue w ! j) \<and>
   length (filter (\<lambda>j. get_queue (processQueue env w) ! j \<noteq> get_queue w ! j)
             [0 ..< length (get_queue w)]) = length (itemsToProcess env w) \<and>
   length (itemsToProcess env w) \<le> MAX_CONCURRENT_REQUESTS \<and>
   sorted (eligibleItems env w) \<and> distinct (eligibleItems env w) \<and>
   (length (get_queue w) = 7 \<and> (\<forall>x \<in> set (get_queue w). status x = pending) \<longrightarrow>
      length (get_queue (processQueue env w)) = 7 \<and>
      (\<forall>j < 5. status (get_queue (processQueue env w) ! j) \<noteq> pending) \<and>
      (\<forall>j. 5 \<le> j \<and> j < 7 \<longrightarrow> status (get_queue (processQueue env w) ! j) = pending))"
proof -
  let ?q = "get_queue w" and ?q' = "get_queue (processQueue env w)"
  let ?sel = "itemsToProcess env w"
  have len: "length ?sel = min MAX_CONCURRENT_REQUESTS (length (eligibleItems env w))"
    by (simp add: itemsToProcess_def min.commute)
  have tk: "?sel = take (min MAX_CONCURRENT_REQUESTS (length (eligibleItems env w))) (eligibleItems env w)"
    by (simp add: itemsToProcess_def min_def)
  have each: "\<forall>j < length ?q.
      if j \<in> set ?sel
      then (status (?q' ! j) = completed \<or> status (?q' ! j) = failed) \<and>
           attempts (?q' ! j) = Suc (attempts (?q ! j))
      else ?q' ! j = ?q ! j"
    using processQueue_done [of _ env w] processQueue_other [of _ env w] by simp
  have "\<forall>j < length ?q. (?q' ! j \<noteq> ?q ! j) = (j \<in> set ?sel)"
  proof (intro allI impI)
    fix j assume "j < length ?q"
    show "(?q' ! j \<noteq> ?q ! j) = (j \<in> set ?sel)"
    proof (cases "j \<in> set ?sel")
      case True
      with processQueue_done [OF True] have "attempts (?q' ! j) \<noteq> attempts (?q ! j)" by simp
      with True show ?thesis by auto
    next
      case False
      with processQueue_other [OF False] show ?thesis by simp
    qed
  qed
  then have "filter (\<lambda>j. ?q' ! j \<noteq> ?q ! j) [0 ..< length ?q] =
             filter (\<lambda>j. j \<in> set ?sel) [0 ..< length ?q]"
    by (intro filter_cong) simp_all
  then have cnt: "length (filter (\<lambda>j. ?q' ! j \<noteq> ?q ! j) [0 ..< length ?q]) = length ?sel"
    using changed_count [OF itemsToProcess_props(1) itemsToProcess_props(2), of env w] by simp
  have seven: "length ?q = 7 \<and> (\<forall>x \<in> set ?q. status x = pending) \<longrightarrow>
      length ?q' = 7 \<and> (\<forall>j < 5. status (?q' ! j) \<noteq> pending) \<and>
      (\<forall>j. 5 \<le> j \<and> j < 7 \<longrightarrow> status (?q' ! j) = pending)"
  proof
    assume a: "length ?q = 7 \<and> (\<forall>x \<in> set ?q. status x = pending)"
    then have "eligibleItems env w = [0 ..< 7]"
      using filter_eligible_pending [of ?q env 0 w] by (simp add: eligibleItems_def)
    then have sel: "?sel = [0 ..< 5]"
      by (simp add: itemsToProcess_def MAX_CONCURRENT_REQUESTS_def take_upt)
    have "\<forall>j < 5. status (?q' ! j) \<noteq> pending"
    proof (intro allI impI)
      fix j :: nat assume "j < 5"
      then have "j \<in> set ?sel" using sel by simp
      from processQueue_done [OF this] show "status (?q' ! j) \<noteq> pending" by auto
    qed
    moreover have "\<forall>j. 5 \<le> j \<and> j < 7 \<longrightarrow> status (?q' ! j) = pending"
    proof (intro allI impI)
      fix j :: nat assume j: "5 \<le> j \<and> j < 7"
      then have "j \<notin> set ?sel" using sel by simp
      from processQueue_other [OF this] have "?q' ! j = ?q ! j" .
      moreover from j a have "?q ! j \<in> set ?q" by simp
      ultimately show "status (?q' ! j) = pending" using a by simp
    qed
    ultimately show "length ?q' = 7 \<and> (\<forall>j < 5. status (?q' ! j) \<noteq> pending) \<and>
      (\<forall>j. 5 \<le> j \<and> j < 7 \<longrightarrow> status (?q' ! j) = pending)"
      using a processQueue_length [of env w] by simp
  qed
  have \<open>length ?sel \<le> MAX_CONCURRENT_REQUESTS\<close> by (simp add: itemsToProcess_def)
  have pred: "\<forall>item w'. fst (eligible env item w') = eligible_at env (tick w') item"
    by (simp add: eligible_eq)
  from len tk each cnt seven eligibleItems_props(1,2) [of env w] \<open>length ?sel \<le> MAX_CONCURRENT_REQUESTS\<close>
  have rest: "length (itemsToProcess env w) = min MAX_CONCURRENT_REQUESTS (length (eligibleItems env w)) \<and>
   itemsToProcess env w = take (min MAX_CONCURRENT_REQUESTS (length (eligibleItems env w))) (eligibleItems env w) \<and>
   (\<forall>j < length (get_queue w).
      if j \<in> set (itemsToProcess env w)
      then (status (get_queue (processQueue env w) ! j) = completed \<or>
            status (get_queue (processQueue env w) ! j) = failed) \<and>
           attempts (get_queue (processQueue env w) ! j) = Suc (attempts (get_queue w ! j))
      else get_queue (processQueue env w) ! j = get_queue w ! j) \<and>
   length (filter (\<lambda>j. get_queue (processQueue env w) ! j \<noteq> get_queue w ! j)
             [0 ..< length (get_queue w)]) = length (itemsToProcess env w) \<and>
   length (itemsToProcess env w) \<le> MAX_CONCURRENT_REQUESTS \<and>
   sorted (eligibleItems env w) \<and> distinct (eligibleItems env w) \<and>
   (length (get_queue w) = 7 \<and> (\<forall>x \<in> set (get_queue w). status x = pending) \<longrightarrow>
      length (get_queue (processQueue env w)) = 7 \<and>
      (\<forall>j < 5. status (get_queue (processQueue env w) ! j) \<noteq> pending) \<and>
      (\<forall>j. 5 \<le> j \<and> j < 7 \<longrightarrow> status (get_queue (processQueue env w) ! j) = pending))"
    by blast
  show ?thesis
    by (rule conjI [OF eligibleItems_exact conjI [OF pred rest]])
qed

theorem processQueue_batch_bound_witness:
  "length (get_queue (world_of seven_pending)) = 7 \<and>
   list_all (\<lambda>x. status x = pending) (get_queue (world_of seven_pending)) \<and>
   status (get_queue (processQueue env_ok (world_of seven_pending)) ! 0) \<noteq> pending \<and>
   status (get_queue (processQueue env_ok (world_of seven_pending)) ! 4) \<noteq> pending \<and>
   status (get_queue (processQueue env_ok (world_of seven_pending)) ! 5) = pending \<and>
   status (get_queue (processQueue env_ok (world_of seven_pending)) ! 6) = pending \<and>
   eligibleItems env_ok (world_of done_then_pending) = [1]"
proof -
  have h: "length (get_queue (world_of seven_pending)) = 7 \<and>
     (\<forall>x \<in> set (get_queue (world_of seven_pending)). status x = pending)"
    by (simp add: get_queue_world_of seven_pending_def pending_item_def)
  with processQueue_batch_bound [of env_ok "world_of seven_pending"]
  have a: "(\<forall>j < 5. status (get_queue (processQueue env_ok (world_of seven_pending)) ! j) \<noteq> pending) \<and>
     (\<forall>j. 5 \<le> j \<and> j < 7 \<longrightarrow>
        status (get_queue (processQueue env_ok (world_of seven_pending)) ! j) = pending)"
    by blast
  from processQueue_batch_bound [of env_ok "world_of done_then_pending"]
  have "eligibleItems env_ok (world_of done_then_pending) =
     filter (\<lambda>k. eligible_at env_ok (tick (world_of done_then_pending) +
                    clock_reads (take k (get_queue (world_of done_then_pending))))
                  (get_queue (world_of done_then_pending) ! k))
       [0 ..< length (get_queue (world_of done_then_pending))]"
    by blast
  also have "\<dots> = [1]"
    by (simp add: get_queue_world_of done_then_pending_def pending_item_def eligible_at_def
        upt_rec [of 0] upt_rec [of 1])
  finally have b: "eligibleItems env_ok (world_of done_then_pending) = [1]" .
  from h a b show ?thesis by (simp add: list_all_iff)
qed

text \<open>
  C3. On a queue of one pending item with no attempts, when the fetch of its
  \<^verbatim>\<open>rawTextUrl\<close> returns a response and \<open>summarizeEO\<close> returns a text, \<open>processQueue\<close>
  leaves the item completed with one attempt, and the text is stored under the item's
  summary key.
\<close>

theorem processQueue_success:
  assumes "get_queue w = [item]" and "status item = pending" and "attempts item = 0"
    and "http_raw env (Suc (tick w)) (rawTextUrl item) = HttpResponse ok st text"
    and "summarizeEO env (Suc (Suc (tick w))) text = Inr (Some summary)"
  shows "get_queue (processQueue env w) =
           [item\<lparr>status := completed, attempts := 1, lastAttempt := Some (now env (tick w))\<rparr>] \<and>
         kv (processQueue env w) (summaryKey (documentNumber item)) = Some (Text summary)"
proof -
  have p: "processQueue env w = snd (process_item env 0 ([item], w))"
    using assms(1,2) by (rule processQueue_single_pending)
  have i: "0 < length [item]" by simp
  have h: "http_raw env (Suc (tick w)) (rawTextUrl ([item] ! 0)) = HttpResponse ok st text"
    using assms(4) by simp
  note r = process_item_succeeds [OF i h assms(5)]
  have "get_queue (processQueue env w) = fst (process_item env 0 ([item], w))"
    by (simp only: p process_item_stored)
  also have "\<dots> = [item\<lparr>status := completed, attempts := 1, lastAttempt := Some (now env (tick w))\<rparr>]"
    using assms(3) by (simp add: r(1) attempted_def)
  finally have a: "get_queue (processQueue env w) =
     [item\<lparr>status := completed, attempts := 1, lastAttempt := Some (now env (tick w))\<rparr>]" .
  have "kv (processQueue env w) (summaryKey (documentNumber item)) = Some (Text summary)"
    using summaryKey_not_queue [of "documentNumber item"] by (simp add: p r(3))
  with a show ?thesis by simp
qed

theorem processQueue_success_witness:
  "get_queue (processQueue env_ok (world_of [pending_item ''A''])) =
     [\<lparr>documentNumber = ''A'', rawTextUrl = ''https://www.federalregister.gov/raw/A'',
       status = completed, attempts = 1, lastAttempt = Some 1700000000000\<rparr>] \<and>
   kv (processQueue env_ok (world_of [pending_item ''A''])) ''summary:A'' = Some (Text ''## Summary'')"
proof -
  let ?w = "world_of [pending_item ''A'']"
  have s: "status (pending_item ''A'') = pending" and a: "attempts (pending_item ''A'') = 0"
    by (simp_all add: pending_item_def)
  have g: "summarizeEO env_ok (Suc (Suc (tick ?w))) ''Executive Order text'' = Inr (Some ''## Summary'')"
    by (simp add: summarizeEO_def summarizeEOCF_def AI_USE_CF_def env_ok_def)
  have h: "http_raw env_ok (Suc (tick ?w)) (rawTextUrl (pending_item ''A'')) =
      HttpResponse True ''OK'' ''Executive Order text''"
    by (simp add: env_ok_def)
  have e1: "(pending_item ''A'')\<lparr>status := completed, attempts := 1,
        lastAttempt := Some (now env_ok (tick ?w))\<rparr> =
      \<lparr>documentNumber = ''A'', rawTextUrl = ''https://www.federalregister.gov/raw/A'',
       status = completed, attempts = 1, lastAttempt = Some 1700000000000\<rparr>"
    by (simp add: pending_item_def env_ok_def world_of_def)
  have e2: "summaryKey (documentNumber (pending_item ''A'')) = ''summary:A''"
    by (simp add: pending_item_def summaryKey_def)
  from processQueue_success [OF get_queue_world_of s a h g]
  show ?thesis unfolding e1 e2 .
qed



text \<open>
  C5 (as amended). In every state, an item that is failed with \<open>MAX_RETRIES\<close> attempts or
  more is not among the eligible items of a \<open>processQueue\<close> that reads that state; and
  through every sequence of \<open>processQueue\<close> and \<open>updateCache\<close> invocations that run in
  turn, none overlapping another, it stays in the queue, at its position and unchanged,
  and is never eligible.
\<close>

theorem exhausted_item_stuck:
  assumes "i < length (get_queue w)" and "status (get_queue w ! i) = failed"
    and "MAX_RETRIES \<le> attempts (get_queue w ! i)"
  shows "i < length (get_queue (in_turn env cs w)) \<and>
         get_queue (in_turn env cs w) ! i = get_queue w ! i \<and>
         i \<notin> set (eligibleItems env (in_turn env cs w)) \<and>
         i \<notin> set (itemsToProcess env (in_turn env cs w))"
  using assms
proof (induction cs arbitrary: w)
  case Nil
  with exhausted_not_eligible [of w i env] show ?case by simp
next
  case (Cons c cs)
  from invoke_keeps_exhausted [OF Cons.prems, of env c]
  have l: "i < length (get_queue (invoke env c w))"
    and e: "get_queue (invoke env c w) ! i = get_queue w ! i" by simp_all
  from Cons.IH [OF l] e Cons.prems show ?case by simp
qed

theorem exhausted_item_stuck_witness:
  "get_queue (in_turn env_gen_throws [ProcessQueue, UpdateCache True, ProcessQueue]
       (world_of [failed_item ''A'' 3 1699999000000, pending_item ''B''])) ! 0 =
     failed_item ''A'' 3 1699999000000 \<and>
   0 \<notin> set (eligibleItems env_gen_throws
       (in_turn env_gen_throws [ProcessQueue, UpdateCache True, ProcessQueue]
          (world_of [failed_item ''A'' 3 1699999000000, pending_item ''B''])))"
proof -
  let ?w = "world_of [failed_item ''A'' 3 1699999000000, pending_item ''B'']"
  have "0 < length (get_queue ?w)" and "status (get_queue ?w ! 0) = failed"
    and "MAX_RETRIES \<le> attempts (get_queue ?w ! 0)"
    by (simp_all add: get_queue_world_of failed_item_def MAX_RETRIES_def)
  from exhausted_item_stuck [OF this, of env_gen_throws "[ProcessQueue, UpdateCache True, ProcessQueue]"]
  show ?thesis by (simp add: get_queue_world_of)
qed

text \<open>
  As stated, for every reachable state and any later invocation, C5 fails under the
  scheduled trigger, which starts \<open>updateCache\<close> and \<open>processQueue\<close> together: the refresh
  reads the queue while \<open>Z\<close> has two attempts, \<open>processQueue\<close> then fails on \<open>Z\<close> for the
  third time and stores it so, and the refresh puts the queue it read, with the new item
  appended. \<open>Z\<close> is back at two attempts and eligible.
\<close>

theorem exhausted_item_revived_counterexample:
  "status (get_queue (world_after (scheduled env_race race_schedule race_start)) ! 0) = failed \<and>
   MAX_RETRIES \<le> attempts (get_queue (world_after (scheduled env_race race_schedule race_start)) ! 0) \<and>
   get_queue (world_after (scheduled env_race (race_schedule @ [TUpdateCache]) race_start)) ! 0 =
     failed_item ''Z'' 2 1699999000000 \<and>
   eligibleItems env_race
     (world_after (scheduled env_race (race_schedule @ [TUpdateCache]) race_start)) = [0, 1]"
proof -
  have e: "eligibleItems env_race
     (world_after (scheduled env_race (race_schedule @ [TUpdateCache]) race_start)) = [0, 1]"
    by (simp add: race_simps eligibleItems_def)
  show ?thesis
    unfolding race_mid race_end e
    by (simp add: MAX_RETRIES_def failed_item_def pending_item_def)
qed




text \<open>
  C7. When the listing request is rejected, answered with a status that is not \<^verbatim>\<open>ok\<close>,
  or its body does not parse, \<open>updateCache\<close> returns the error, puts nothing and leaves
  the namespace as it was. When the listing arrives, the first put of the invocation
  stores, under \<^verbatim>\<open>orders\<close>, the snapshot made of the fetched orders alone, and any later
  put of the invocation is to the queue.
\<close>

theorem updateCache_replace_or_nothing:
  "(listing_fails env (Suc (tick w)) \<longrightarrow>
      (\<exists>e. fst (updateCache env summary w) = Inl e) \<and>
      kv (snd (updateCache env summary w)) = kv w \<and>
      puts (snd (updateCache env summary w)) = puts w) \<and>
   (listing env (Suc (tick w)) = ListingResponse True st (Some results) \<longrightarrow>
      fst (updateCache env summary w) = Inr () \<and>
      kv (snd (updateCache env summary w)) ''orders'' =
        Some (OrdersJson \<lparr>lastUpdated = now env (Suc (Suc (tick w))),
                          orders = map normalize_result results\<rparr>) \<and>
      take (Suc (length (puts w))) (puts (snd (updateCache env summary w))) =
        puts w @ [(''orders'', OrdersJson \<lparr>lastUpdated = now env (Suc (Suc (tick w))),
                                          orders = map normalize_result results\<rparr>)] \<and>
      (\<forall>k v. (k, v) \<in> set (drop (Suc (length (puts w))) (puts (snd (updateCache env summary w))))
         \<longrightarrow> k = ''summary_queue''))"
proof -
  have fail: "listing_fails env (Suc (tick w)) \<longrightarrow>
      (\<exists>e. fst (updateCache env summary w) = Inl e) \<and>
      kv (snd (updateCache env summary w)) = kv w \<and>
      puts (snd (updateCache env summary w)) = puts w"
  proof
    assume "listing_fails env (Suc (tick w))"
    from fetchExecutiveOrders_fails [OF this] obtain e where
      e: "fst (fetchExecutiveOrders env w) = Inl e" ..
    obtain r w1 where p: "fetchExecutiveOrders env w = (r, w1)"
      by (cases "fetchExecutiveOrders env w")
    with fetchExecutiveOrders_world [of env w] have "kv w1 = kv w" "puts w1 = puts w" by simp_all
    with e p show "(\<exists>e. fst (updateCache env summary w) = Inl e) \<and>
      kv (snd (updateCache env summary w)) = kv w \<and>
      puts (snd (updateCache env summary w)) = puts w"
      by (simp add: updateCache_def)
  qed
  have ok: "listing env (Suc (tick w)) = ListingResponse True st (Some results) \<longrightarrow>
      fst (updateCache env summary w) = Inr () \<and>
      kv (snd (updateCache env summary w)) ''orders'' =
        Some (OrdersJson \<lparr>lastUpdated = now env (Suc (Suc (tick w))),
                          orders = map normalize_result results\<rparr>) \<and>
      take (Suc (length (puts w))) (puts (snd (updateCache env summary w))) =
        puts w @ [(''orders'', OrdersJson \<lparr>lastUpdated = now env (Suc (Suc (tick w))),
                                          orders = map normalize_result results\<rparr>)] \<and>
      (\<forall>k v. (k, v) \<in> set (drop (Suc (length (puts w))) (puts (snd (updateCache env summary w))))
         \<longrightarrow> k = ''summary_queue'')"
  proof
    assume a: "listing env (Suc (tick w)) = ListingResponse True st (Some results)"
    let ?snap = "OrdersJson \<lparr>lastUpdated = now env (Suc (Suc (tick w))),
                            orders = map normalize_result results\<rparr>"
    let ?w3 = "kv_put ''orders'' ?snap (bump (bump (bump w)))"
    have u: "updateCache env summary w =
        (Inr (), if summary then enqueueNew (map normalize_result results) ?w3 else ?w3)"
      by (simp add: updateCache_def fetchExecutiveOrders_ok [OF a] Date_now_def Let_def bump_simps)
    have p3: "puts ?w3 = puts w @ [(''orders'', ?snap)]"
      by (simp add: kv_put_simps bump_simps)
    have k3: "kv ?w3 ''orders'' = Some ?snap"
      by (simp add: kv_put_simps)
    show "fst (updateCache env summary w) = Inr () \<and>
      kv (snd (updateCache env summary w)) ''orders'' = Some ?snap \<and>
      take (Suc (length (puts w))) (puts (snd (updateCache env summary w))) =
        puts w @ [(''orders'', ?snap)] \<and>
      (\<forall>k v. (k, v) \<in> set (drop (Suc (length (puts w))) (puts (snd (updateCache env summary w))))
         \<longrightarrow> k = ''summary_queue'')"
    proof (cases summary)
      case False
      with u p3 k3 show ?thesis by simp
    next
      case True
      have ko: "kv (enqueueNew (map normalize_result results) ?w3) ''orders'' = Some ?snap"
        using k3 by (simp add: enqueueNew_kv_other)
      from enqueueNew_puts [of "map normalize_result results" ?w3]
      show ?thesis
      proof
        assume "puts (enqueueNew (map normalize_result results) ?w3) = puts ?w3"
        with True u p3 ko show ?thesis by simp
      next
        assume "\<exists>q. puts (enqueueNew (map normalize_result results) ?w3) =
                  puts ?w3 @ [(''summary_queue'', QueueJson q)]"
        then obtain q where
          "puts (enqueueNew (map normalize_result results) ?w3) = puts ?w3 @ [(''summary_queue'', QueueJson q)]" ..
        with True u p3 ko show ?thesis by simp
      qed
    qed
  qed
  from fail ok show ?thesis by simp
qed

theorem updateCache_replace_or_nothing_witness:
  "fst (updateCache env_listing_503 True (world_of [pending_item ''B''])) \<noteq> Inr () \<and>
   kv (snd (updateCache env_listing_503 True (world_of [pending_item ''B'']))) =
     kv (world_of [pending_item ''B'']) \<and>
   puts (snd (updateCache env_listing_503 True (world_of [pending_item ''B'']))) = [] \<and>
   fst (updateCache (env_listing [order_A]) True (world_of [pending_item ''B''])) = Inr () \<and>
   kv (snd (updateCache (env_listing [order_A]) True (world_of [pending_item ''B'']))) ''orders'' =
     Some (OrdersJson \<lparr>lastUpdated = 1700000000002, orders = [normalize_result order_A]\<rparr>)"
proof -
  let ?w = "world_of [pending_item ''B'']"
  have f: "listing_fails env_listing_503 (Suc (tick ?w))"
    by (simp add: listing_fails_def env_listing_503_def)
  have l: "listing (env_listing [order_A]) (Suc (tick ?w)) = ListingResponse True ''OK'' (Some [order_A])"
    by (simp add: env_listing_def)
  have p: "puts ?w = []" by (simp add: world_of_def)
  have n: "now (env_listing [order_A]) (Suc (Suc (tick ?w))) = 1700000000002"
    by (simp add: env_listing_def env_ok_def world_of_def)
  from updateCache_replace_or_nothing [of env_listing_503 ?w True "''OK''" "[order_A]"] f
  have 1: "(\<exists>e. fst (updateCache env_listing_503 True ?w) = Inl e) \<and>
      kv (snd (updateCache env_listing_503 True ?w)) = kv ?w \<and>
      puts (snd (updateCache env_listing_503 True ?w)) = puts ?w" by blast
  from updateCache_replace_or_nothing [of "env_listing [order_A]" ?w True "''OK''" "[order_A]"] l
  have 2: "fst (updateCache (env_listing [order_A]) True ?w) = Inr () \<and>
      kv (snd (updateCache (env_listing [order_A]) True ?w)) ''orders'' =
        Some (OrdersJson \<lparr>lastUpdated = now (env_listing [order_A]) (Suc (Suc (tick ?w))),
                          orders = map normalize_result [order_A]\<rparr>)" by blast
  from 1 2 show ?thesis unfolding p n by auto
qed

text \<open>
  C8 fails on the hosted-inference backend: when \<^verbatim>\<open>env.AI.run\<close> answers without a
  \<^verbatim>\<open>response\<close>, \<open>summarizeEOCF\<close> returns the text \<open>failed\<close> instead of throwing, and
  \<open>processQueue\<close> stores that text as the summary and completes the item. The sibling
  \<open>summarizeEOClaude\<close> throws when its backend answers with a status that is not
  \<^verbatim>\<open>ok\<close> or with a body without content (\<open>summarizeEOClaude_returns\<close>).
\<close>

theorem summarizeEOCF_returns_failed:
  "summarizeEOCF env_ai_empty 2 ''Executive Order text'' = Inr ''failed'' \<and>
   get_queue (processQueue env_ai_empty (world_of [pending_item ''A''])) =
     [\<lparr>documentNumber = ''A'', rawTextUrl = ''https://www.federalregister.gov/raw/A'',
       status = completed, attempts = 1, lastAttempt = Some 1700000000000\<rparr>] \<and>
   kv (processQueue env_ai_empty (world_of [pending_item ''A''])) ''summary:A'' =
     Some (Text ''failed'')"
proof -
  let ?w = "world_of [pending_item ''A'']"
  let ?q' = "[(attempted env_ai_empty ?w (pending_item ''A''))\<lparr>status := completed\<rparr>]"
  have c: "summarizeEOCF env_ai_empty 2 ''Executive Order text'' = Inr ''failed''"
    by (simp add: summarizeEOCF_def env_ai_empty_def)
  have p: "processQueue env_ai_empty ?w = snd (process_item env_ai_empty 0 ([pending_item ''A''], ?w))"
    by (rule processQueue_single_pending) (simp_all add: get_queue_world_of pending_item_def)
  have i: "0 < length [pending_item ''A'']" by simp
  have h: "http_raw env_ai_empty (Suc (tick ?w)) (rawTextUrl ([pending_item ''A''] ! 0)) =
      HttpResponse True ''OK'' ''Executive Order text''"
    by (simp add: env_ai_empty_def env_ok_def)
  have g: "summarizeEO env_ai_empty (Suc (Suc (tick ?w))) ''Executive Order text'' = Inr (Some ''failed'')"
    by (simp add: summarizeEO_def summarizeEOCF_def AI_USE_CF_def env_ai_empty_def)
  note r = process_item_succeeds [OF i h g]
  have "get_queue (processQueue env_ai_empty ?w) =
      fst (process_item env_ai_empty 0 ([pending_item ''A''], ?w))"
    by (simp only: p process_item_stored)
  also have "\<dots> = ?q'" by (simp add: r(1))
  finally have a: "get_queue (processQueue env_ai_empty ?w) = ?q'" .
  have e1: "(attempted env_ai_empty ?w (pending_item ''A''))\<lparr>status := completed\<rparr> =
      \<lparr>documentNumber = ''A'', rawTextUrl = ''https://www.federalregister.gov/raw/A'',
       status = completed, attempts = 1, lastAttempt = Some 1700000000000\<rparr>"
    by (simp add: attempted_def pending_item_def env_ai_empty_def env_ok_def world_of_def)
  have e2: "summaryKey (documentNumber ([pending_item ''A''] ! 0)) = ''summary:A''"
    by (simp add: pending_item_def summaryKey_def)
  have "kv (processQueue env_ai_empty ?w) (summaryKey (documentNumber ([pending_item ''A''] ! 0))) =
      Some (Text ''failed'')"
    using summaryKey_not_queue [of "documentNumber ([pending_item ''A''] ! 0)"]
    by (simp only: p r(3) fun_upd_apply if_False if_True refl)
  with a c show ?thesis unfolding e1 e2 by simp
qed

text \<open>
  C9 fails: \<open>processQueue\<close> never looks at the \<^verbatim>\<open>ok\<close> flag of the raw-text response
  (\<open>fetchExecutiveOrders\<close> and \<open>summarizeEOClaude\<close> do check theirs). A 404 answer is
  summarized like a document: the item is completed and a summary of the error page is
  stored.
\<close>

theorem processQueue_summarizes_error_page:
  "get_queue (processQueue env_404 (world_of [pending_item ''A''])) =
     [\<lparr>documentNumber = ''A'', rawTextUrl = ''https://www.federalregister.gov/raw/A'',
       status = completed, attempts = 1, lastAttempt = Some 1700000000000\<rparr>] \<and>
   kv (processQueue env_404 (world_of [pending_item ''A''])) ''summary:A'' =
     Some (Text ''## Summary of an error page'')"
proof -
  let ?w = "world_of [pending_item ''A'']"
  let ?q' = "[(attempted env_404 ?w (pending_item ''A''))\<lparr>status := completed\<rparr>]"
  have p: "processQueue env_404 ?w = snd (process_item env_404 0 ([pending_item ''A''], ?w))"
    by (rule processQueue_single_pending) (simp_all add: get_queue_world_of pending_item_def)
  have i: "0 < length [pending_item ''A'']" by simp
  have h: "http_raw env_404 (Suc (tick ?w)) (rawTextUrl ([pending_item ''A''] ! 0)) =
      HttpResponse False ''Not Found'' ''<html>404 Not Found</html>''"
    by (simp add: env_404_def)
  have g: "summarizeEO env_404 (Suc (Suc (tick ?w))) ''<html>404 Not Found</html>'' =
      Inr (Some ''## Summary of an error page'')"
    by (simp add: summarizeEO_def summarizeEOCF_def AI_USE_CF_def env_404_def)
  note r = process_item_succeeds [OF i h g]
  have "get_queue (processQueue env_404 ?w) = fst (process_item env_404 0 ([pending_item ''A''], ?w))"
    by (simp only: p process_item_stored)
  also have "\<dots> = ?q'" by (simp add: r(1))
  finally have a: "get_queue (processQueue env_404 ?w) = ?q'" .
  have e1: "(attempted env_404 ?w (pending_item ''A''))\<lparr>status := completed\<rparr> =
      \<lparr>documentNumber = ''A'', rawTextUrl = ''https://www.federalregister.gov/raw/A'',
       status = completed, attempts = 1, lastAttempt = Some 1700000000000\<rparr>"
    by (simp add: attempted_def pending_item_def env_404_def env_ok_def world_of_def)
  have e2: "summaryKey (documentNumber ([pending_item ''A''] ! 0)) = ''summary:A''"
    by (simp add: pending_item_def summaryKey_def)
  have "kv (processQueue env_404 ?w) (summaryKey (documentNumber ([pending_item ''A''] ! 0))) =
      Some (Text ''## Summary of an error page'')"
    using summaryKey_not_queue [of "documentNumber ([pending_item ''A''] ! 0)"]
    by (simp only: p r(3) fun_upd_apply if_False if_True refl)
  with a show ?thesis unfolding e1 e2 by simp
qed

text \<open>
  C10. An invocation of \<open>processQueue\<close> keeps the queue's length, and every item's document
  number and URL at its position; an item outside the slice \<open>itemsToProcess\<close> is stored
  again as it was; when the slice is empty nothing is put and the namespace is as before;
  when the queue is absent or empty the invocation returns at once.
\<close>

theorem processQueue_frame:
  "length (get_queue (processQueue env w)) = length (get_queue w) \<and>
   map documentNumber (get_queue (processQueue env w)) = map documentNumber (get_queue w) \<and>
   map rawTextUrl (get_queue (processQueue env w)) = map rawTextUrl (get_queue w) \<and>
   (\<forall>j < length (get_queue w). j \<notin> set (itemsToProcess env w) \<longrightarrow>
      get_queue (processQueue env w) ! j = get_queue w ! j) \<and>
   (itemsToProcess env w = [] \<longrightarrow>
      kv (processQueue env w) = kv w \<and> puts (processQueue env w) = puts w) \<and>
   (kv w ''summary_queue'' = None \<or> get_queue w = [] \<longrightarrow> processQueue env w = w)"
proof -
  have "kv w ''summary_queue'' = None \<Longrightarrow> get_queue w = []"
    by (simp add: get_queue_def)
  then have "kv w ''summary_queue'' = None \<or> get_queue w = [] \<longrightarrow> processQueue env w = w"
    by (auto simp: processQueue_unfold)
  then show ?thesis
    using processQueue_length [of env w] processQueue_keys [of env w]
      processQueue_none_selected [of env w] processQueue_other [of _ env w]
    by blast
qed

theorem processQueue_frame_witness:
  "get_queue (processQueue env_ok (world_of done_then_pending)) ! 0 = done_then_pending ! 0 \<and>
   processQueue env_ok (world_of []) = world_of []"
proof -
  have sel: "itemsToProcess env_ok (world_of done_then_pending) = [1]"
    by (simp add: itemsToProcess_def eligibleItems_def get_queue_world_of done_then_pending_def
        pending_item_def eligible_def MAX_CONCURRENT_REQUESTS_def)
  show ?thesis
    using processQueue_frame [of env_ok "world_of done_then_pending"]
      processQueue_frame [of env_ok "world_of []"] sel
    by (simp add: get_queue_world_of done_then_pending_def)
qed

end
